theory Spec2Isabelle
  imports Main
begin

section \<open>Data model of \<^verbatim>\<open>src/data/post.ts\<close>\<close>

text \<open>
  The module works on entries of the content collection \<^verbatim>\<open>"post"\<close>. An entry
  (\<^verbatim>\<open>CollectionEntry<"post">\<close>) has an \<^verbatim>\<open>id\<close> (its path inside the collection) and a
  \<^verbatim>\<open>data\<close> object with the front matter; the module reads the fields \<^verbatim>\<open>draft\<close>,
  \<^verbatim>\<open>publishDate\<close> and \<^verbatim>\<open>tags\<close> of it and nothing else.

  A JavaScript \<^verbatim>\<open>Date\<close> is observed only through \<^verbatim>\<open>getFullYear()\<close>, which gives the
  calendar year in local time, or \<^verbatim>\<open>NaN\<close> for an invalid date. A date is therefore
  represented by what that call returns.
\<close>

datatype year = Year int | NaN

datatype date = Date year

fun getFullYear :: "date \<Rightarrow> year" where
  "getFullYear (Date y) = y"

record post_data =
  draft :: bool
  publishDate :: date
  tags :: "string list"

record post =
  entry_id :: string
  data :: post_data

section \<open>The visibility filter: \<^verbatim>\<open>getAllPosts\<close>\<close>

text \<open>
  \<^verbatim>\<open>String.prototype.startsWith(p)\<close>: the first \<^verbatim>\<open>p.length\<close> code units of the
  string are those of \<^verbatim>\<open>p\<close>.
\<close>

definition startsWith :: "string \<Rightarrow> string \<Rightarrow> bool" where
  "startsWith s p = (take (length p) s = p)"

text \<open>
  \<^verbatim>\<open>getCollection(name, filter)\<close> of \<^verbatim>\<open>astro:content\<close> gives the entries of the
  collection that the filter callback accepts. The collection's entries are a parameter
  here, in the order the loader delivers them.
\<close>

definition getCollection :: "post list \<Rightarrow> (post \<Rightarrow> bool) \<Rightarrow> post list" where
  "getCollection entries keep = filter keep entries"

text \<open>
  \<^verbatim>\<open>getAllPosts\<close> reads the build mode from \<^verbatim>\<open>import.meta.env.PROD\<close>; the flag is the
  first argument here, the collection's entries the second.
\<close>

definition getAllPosts :: "bool \<Rightarrow> post list \<Rightarrow> post list" where
  "getAllPosts env_PROD entries =
     getCollection entries (\<lambda>e.
       if env_PROD then
         (let isDemo = startsWith (entry_id e) ''demo/''
          in \<not> draft (data e) \<and> \<not> isDemo)
       else \<not> draft (data e))"

section \<open>The year grouper: \<^verbatim>\<open>groupPostsByYear\<close>\<close>

text \<open>
  \<^verbatim>\<open>Array.prototype.reduce(callback, initial)\<close>: the callback is applied to the
  accumulator and each element, from left to right.
\<close>

fun reduce :: "('b \<Rightarrow> 'a \<Rightarrow> 'b) \<Rightarrow> 'b \<Rightarrow> 'a list \<Rightarrow> 'b" where
  "reduce f acc [] = acc"
| "reduce f acc (x # xs) = reduce f (f acc x) xs"

text \<open>
  The accumulator is an object used as a dictionary: \<^verbatim>\<open>acc[year]\<close> converts the number
  to a property name, different numbers (and \<^verbatim>\<open>NaN\<close>) to different names, and no such
  name is a property of \<^verbatim>\<open>Object.prototype\<close>. The object is a map from the year to the
  bucket; an absent property reads as \<^verbatim>\<open>undefined\<close>, which is \<open>None\<close>. An array is
  truthy also when it is empty, so \<^verbatim>\<open>!acc[year]\<close> holds exactly for an absent property.
  The optional call \<^verbatim>\<open>acc[year]?.push(post)\<close> does nothing on \<^verbatim>\<open>undefined\<close>.
\<close>

definition groupPostsByYear_callback ::
    "(year \<rightharpoonup> post list) \<Rightarrow> post \<Rightarrow> (year \<rightharpoonup> post list)" where
  "groupPostsByYear_callback acc p =
     (let y = getFullYear (publishDate (data p));
          acc1 = (if acc y = None then acc(y \<mapsto> []) else acc)
      in case acc1 y of
           None \<Rightarrow> acc1
         | Some bucket \<Rightarrow> acc1(y \<mapsto> bucket @ [p]))"

definition groupPostsByYear :: "post list \<Rightarrow> (year \<rightharpoonup> post list)" where
  "groupPostsByYear posts = reduce groupPostsByYear_callback Map.empty posts"

section \<open>The tag aggregator\<close>

text \<open>
  \<^verbatim>\<open>Array.prototype.flatMap(callback)\<close>: the elements of the arrays the callback
  returns, one array after the other. The elements are strings here, so the flattening
  by one level takes nothing apart.
\<close>

fun flatMap :: "('a \<Rightarrow> 'b list) \<Rightarrow> 'a list \<Rightarrow> 'b list" where
  "flatMap f [] = []"
| "flatMap f (x # xs) = f x @ flatMap f xs"

definition getAllTags :: "post list \<Rightarrow> string list" where
  "getAllTags posts = flatMap (\<lambda>p. tags (data p)) posts"

text \<open>
  A \<^verbatim>\<open>Set\<close> keeps its elements in insertion order, and adding an element it already has
  changes nothing: it is the list of its elements in that order. \<^verbatim>\<open>new Set(iterable)\<close>
  adds the elements of the iterable one by one; spreading the set gives its elements.
\<close>

definition Set_add :: "'a list \<Rightarrow> 'a \<Rightarrow> 'a list" where
  "Set_add s x = (if x \<in> set s then s else s @ [x])"

definition new_Set :: "'a list \<Rightarrow> 'a list" where
  "new_Set xs = reduce Set_add [] xs"

definition getUniqueTags :: "post list \<Rightarrow> string list" where
  "getUniqueTags posts = new_Set (getAllTags posts)"

text \<open>
  A \<^verbatim>\<open>Map\<close> keeps its entries in the order in which their keys were first set:
  \<^verbatim>\<open>set\<close> on a key it has replaces the value where the entry stands, on a new key it
  adds the entry at the end; \<^verbatim>\<open>get\<close> on a missing key is \<^verbatim>\<open>undefined\<close>. It is the list
  of its entries.
\<close>

fun Map_get :: "('k \<times> 'v) list \<Rightarrow> 'k \<Rightarrow> 'v option" where
  "Map_get [] k = None"
| "Map_get ((k', v') # m) k = (if k' = k then Some v' else Map_get m k)"

fun Map_set :: "('k \<times> 'v) list \<Rightarrow> 'k \<Rightarrow> 'v \<Rightarrow> ('k \<times> 'v) list" where
  "Map_set [] k v = [(k, v)]"
| "Map_set ((k', v') # m) k v =
     (if k' = k then (k', v) # m else (k', v') # Map_set m k v)"

text \<open>The callback \<^verbatim>\<open>(acc, t) => acc.set(t, (acc.get(t) ?? 0) + 1)\<close>.\<close>

definition getUniqueTagsWithCount_callback ::
    "(string \<times> int) list \<Rightarrow> string \<Rightarrow> (string \<times> int) list" where
  "getUniqueTagsWithCount_callback acc t =
     Map_set acc t ((case Map_get acc t of None \<Rightarrow> 0 | Some c \<Rightarrow> c) + 1)"

text \<open>
  \<^verbatim>\<open>Array.prototype.sort(compare)\<close> is stable (ECMAScript 2019): \<^verbatim>\<open>a\<close> comes before
  \<^verbatim>\<open>b\<close> when \<^verbatim>\<open>compare(a, b) < 0\<close>, after it when \<^verbatim>\<open>compare(a, b) > 0\<close>, and the two
  keep their order when it is \<^verbatim>\<open>0\<close>. For a consistent comparator this fixes the result,
  whatever the algorithm of the engine; insertion from the right computes it.
\<close>

fun sort_insert :: "('a \<Rightarrow> 'a \<Rightarrow> int) \<Rightarrow> 'a \<Rightarrow> 'a list \<Rightarrow> 'a list" where
  "sort_insert compare x [] = [x]"
| "sort_insert compare x (y # ys) =
     (if compare x y \<le> 0 then x # y # ys else y # sort_insert compare x ys)"

definition array_sort :: "('a \<Rightarrow> 'a \<Rightarrow> int) \<Rightarrow> 'a list \<Rightarrow> 'a list" where
  "array_sort compare xs = foldr (sort_insert compare) xs []"

definition getUniqueTagsWithCount :: "post list \<Rightarrow> (string \<times> int) list" where
  "getUniqueTagsWithCount posts =
     array_sort (\<lambda>a b. snd b - snd a)
       (reduce getUniqueTagsWithCount_callback [] (getAllTags posts))"

section \<open>Notions of the specification\<close>

text \<open>The distinct elements of a list, each at the place of its first occurrence.\<close>

fun first_occurrences :: "'a list \<Rightarrow> 'a list" where
  "first_occurrences [] = []"
| "first_occurrences (x # xs) = x # first_occurrences (removeAll x xs)"

text \<open>The year under which an entry is filed.\<close>

definition year_of :: "post \<Rightarrow> year" where
  "year_of p = getFullYear (publishDate (data p))"

text \<open>The count a counting map holds for a key, \<open>0\<close> for a key it does not have.\<close>

definition lookup0 :: "('k \<times> int) list \<Rightarrow> 'k \<Rightarrow> int" where
  "lookup0 m k = (case Map_get m k of None \<Rightarrow> 0 | Some c \<Rightarrow> c)"

section \<open>The module on a store\<close>

text \<open>
  The functions of the module create objects and change them in place: the accumulator
  object and its buckets (\<^verbatim>\<open>acc[year] = []\<close>, \<^verbatim>\<open>push\<close>), the array \<^verbatim>\<open>flatMap\<close> fills, the
  \<^verbatim>\<open>Set\<close>, the \<^verbatim>\<open>Map\<close> (\<^verbatim>\<open>set\<close>) and the array that \<^verbatim>\<open>sort\<close> sorts. They also throw
  \<^verbatim>\<open>TypeError\<close> when a property they use is missing. This second model keeps both: the
  objects live in a store, a function takes the store and returns the new one with its
  result, or the error it throws.

  An address is an index into the store; \<^verbatim>\<open>new\<close> objects are added at its end. The store
  holds the objects of the input (the array of entries, each entry and its \<^verbatim>\<open>data\<close>
  object, the \<^verbatim>\<open>Date\<close> and the array of tags of each) and the objects the functions create.
  A property of \<^verbatim>\<open>data\<close> that is missing is \<open>None\<close>. The pairs \<^verbatim>\<open>[tag, count]\<close> that
  iterating the \<^verbatim>\<open>Map\<close> creates are never changed and stand as values in their array.
\<close>

type_synonym addr = nat

datatype obj =
    Entry string addr
  | Data "bool option" "addr option" "addr option"
  | DateObj date
  | StrArray "string list"
  | EntryArray "addr list"
  | YearIndex "(year \<times> addr) list"
  | CountMap "(string \<times> int) list"
  | TagSet "string list"
  | PairArray "(string \<times> int) list"

type_synonym store = "obj list"

datatype error = TypeError

type_synonym 'a prog = "store \<Rightarrow> error + 'a \<times> store"

subsection \<open>Programs on the store\<close>

text \<open>
  A program returns a value and the new store, or throws; \<open>andThen\<close> runs a second
  program on the result of a first one and passes on what the first one throws.
\<close>

definition ret :: "'a \<Rightarrow> 'a prog" where
  "ret x = (\<lambda>s. Inr (x, s))"

definition throw :: "error \<Rightarrow> 'a prog" where
  "throw e = (\<lambda>s. Inl e)"

definition andThen :: "'a prog \<Rightarrow> ('a \<Rightarrow> 'b prog) \<Rightarrow> 'b prog" where
  "andThen m f = (\<lambda>s. case m s of Inl e \<Rightarrow> Inl e | Inr (x, s') \<Rightarrow> f x s')"

text \<open>
  A new object gets the next free address. \<open>lookup\<close> gives the object at an address and
  \<open>assign\<close> replaces it, all other objects staying as they are. An address outside the
  store holds nothing; no run that starts from a well-formed store reaches one, and the
  model treats its use like the use of \<^verbatim>\<open>undefined\<close>.
\<close>

definition alloc :: "obj \<Rightarrow> addr prog" where
  "alloc ob = (\<lambda>s. Inr (length s, s @ [ob]))"

definition lookup :: "store \<Rightarrow> addr \<Rightarrow> obj option" where
  "lookup s a = (if a < length s then Some (s ! a) else None)"

definition assign :: "addr \<Rightarrow> obj \<Rightarrow> unit prog" where
  "assign a ob = (\<lambda>s. if a < length s then Inr ((), s[a := ob]) else Inl TypeError)"

text \<open>
  What stands at an address, read as an object of one kind. An object of another kind has
  not the property or method the code uses there, and the use throws \<^verbatim>\<open>TypeError\<close> (in
  some of these cases JavaScript would go on with \<^verbatim>\<open>undefined\<close>; the model throws more
  often than the code, never less).
\<close>

definition entry_of :: "store \<Rightarrow> addr \<Rightarrow> (string \<times> addr) option" where
  "entry_of s a = (case lookup s a of Some (Entry i d) \<Rightarrow> Some (i, d) | _ \<Rightarrow> None)"

definition data_of :: "store \<Rightarrow> addr \<Rightarrow> (bool option \<times> addr option \<times> addr option) option" where
  "data_of s a = (case lookup s a of Some (Data dr pd tg) \<Rightarrow> Some (dr, pd, tg) | _ \<Rightarrow> None)"

definition date_of :: "store \<Rightarrow> addr \<Rightarrow> date option" where
  "date_of s a = (case lookup s a of Some (DateObj d) \<Rightarrow> Some d | _ \<Rightarrow> None)"

definition strings_of :: "store \<Rightarrow> addr \<Rightarrow> string list option" where
  "strings_of s a = (case lookup s a of Some (StrArray ts) \<Rightarrow> Some ts | _ \<Rightarrow> None)"

definition entries_of :: "store \<Rightarrow> addr \<Rightarrow> addr list option" where
  "entries_of s a = (case lookup s a of Some (EntryArray es) \<Rightarrow> Some es | _ \<Rightarrow> None)"

definition index_of :: "store \<Rightarrow> addr \<Rightarrow> (year \<times> addr) list option" where
  "index_of s a = (case lookup s a of Some (YearIndex ix) \<Rightarrow> Some ix | _ \<Rightarrow> None)"

definition counts_of :: "store \<Rightarrow> addr \<Rightarrow> (string \<times> int) list option" where
  "counts_of s a = (case lookup s a of Some (CountMap m) \<Rightarrow> Some m | _ \<Rightarrow> None)"

definition set_of :: "store \<Rightarrow> addr \<Rightarrow> string list option" where
  "set_of s a = (case lookup s a of Some (TagSet ts) \<Rightarrow> Some ts | _ \<Rightarrow> None)"

definition pairs_of :: "store \<Rightarrow> addr \<Rightarrow> (string \<times> int) list option" where
  "pairs_of s a = (case lookup s a of Some (PairArray ps) \<Rightarrow> Some ps | _ \<Rightarrow> None)"

definition read :: "(store \<Rightarrow> addr \<Rightarrow> 'a option) \<Rightarrow> addr \<Rightarrow> 'a prog" where
  "read kind a = (\<lambda>s. case kind s a of None \<Rightarrow> Inl TypeError | Some v \<Rightarrow> Inr (v, s))"

text \<open>Loops over the elements of an array, the store passed from one round to the next.\<close>

fun foldM :: "('b \<Rightarrow> 'a \<Rightarrow> 'b prog) \<Rightarrow> 'b \<Rightarrow> 'a list \<Rightarrow> 'b prog" where
  "foldM f acc [] = ret acc"
| "foldM f acc (x # xs) = andThen (f acc x) (\<lambda>acc'. foldM f acc' xs)"

fun filterM :: "('a \<Rightarrow> bool prog) \<Rightarrow> 'a list \<Rightarrow> 'a list prog" where
  "filterM keep [] = ret []"
| "filterM keep (x # xs) =
     andThen (keep x) (\<lambda>b.
     andThen (filterM keep xs) (\<lambda>ys.
     ret (if b then x # ys else ys)))"

subsection \<open>The functions of the module as programs\<close>

text \<open>\<^verbatim>\<open>!data.draft\<close>: a missing property is \<^verbatim>\<open>undefined\<close>, which is falsy.\<close>

definition not_draft :: "bool option \<Rightarrow> bool" where
  "not_draft dr = (case dr of None \<Rightarrow> True | Some b \<Rightarrow> \<not> b)"

definition getAllPosts_callback_store :: "bool \<Rightarrow> addr \<Rightarrow> bool prog" where
  "getAllPosts_callback_store env_PROD e =
     andThen (read entry_of e) (\<lambda>(i, d).
     andThen (read data_of d) (\<lambda>(dr, pd, tg).
       if env_PROD then
         (let isDemo = startsWith i ''demo/''
          in ret (not_draft dr \<and> \<not> isDemo))
       else ret (not_draft dr)))"

text \<open>
  \<^verbatim>\<open>getCollection\<close> calls the filter on each entry of the collection and gives a new array
  with the entries it accepts. The promise that \<^verbatim>\<open>getAllPosts\<close> returns is fulfilled with
  that array, or rejected with what the filter throws.
\<close>

definition getCollection_store :: "addr \<Rightarrow> (addr \<Rightarrow> bool prog) \<Rightarrow> addr prog" where
  "getCollection_store entries keep =
     andThen (read entries_of entries) (\<lambda>es.
     andThen (filterM keep es) (\<lambda>kept.
     alloc (EntryArray kept)))"

definition getAllPosts_store :: "bool \<Rightarrow> addr \<Rightarrow> addr prog" where
  "getAllPosts_store env_PROD entries =
     getCollection_store entries (getAllPosts_callback_store env_PROD)"

text \<open>
  The accumulator object holds, for each year that is a property of it, the address of the
  bucket; \<^verbatim>\<open>acc[year]\<close> reads that table (\<open>Map_get\<close>) and \<^verbatim>\<open>acc[year] = []\<close> writes it
  (\<open>Map_set\<close>). \<^verbatim>\<open>getFullYear()\<close> is called on the object \<^verbatim>\<open>publishDate\<close> refers to and
  throws when there is none; \<^verbatim>\<open>push\<close> changes the bucket in place.
\<close>

definition groupPostsByYear_callback_store :: "addr \<Rightarrow> addr \<Rightarrow> addr prog" where
  "groupPostsByYear_callback_store acc p =
     andThen (read entry_of p) (\<lambda>(i, d).
     andThen (read data_of d) (\<lambda>(dr, pd, tg).
     case pd of
       None \<Rightarrow> throw TypeError
     | Some da \<Rightarrow>
     andThen (read date_of da) (\<lambda>dt.
     let y = getFullYear dt in
     andThen (read index_of acc) (\<lambda>ix.
     andThen (if Map_get ix y = None
              then andThen (alloc (EntryArray [])) (\<lambda>b. assign acc (YearIndex (Map_set ix y b)))
              else ret ()) (\<lambda>_.
     andThen (read index_of acc) (\<lambda>ix1.
     andThen (case Map_get ix1 y of
                None \<Rightarrow> ret ()
              | Some b \<Rightarrow>
                  andThen (read entries_of b) (\<lambda>bucket. assign b (EntryArray (bucket @ [p])))) (\<lambda>_.
     ret acc)))))))"

definition groupPostsByYear_store :: "addr \<Rightarrow> addr prog" where
  "groupPostsByYear_store posts =
     andThen (read entries_of posts) (\<lambda>ps.
     andThen (alloc (YearIndex [])) (\<lambda>acc.
     foldM groupPostsByYear_callback_store acc ps))"

text \<open>The callback \<^verbatim>\<open>(post) => [...post.data.tags]\<close>: a new array with the tags.\<close>

definition getAllTags_callback_store :: "addr \<Rightarrow> addr prog" where
  "getAllTags_callback_store p =
     andThen (read entry_of p) (\<lambda>(i, d).
     andThen (read data_of d) (\<lambda>(dr, pd, tg).
     case tg of
       None \<Rightarrow> throw TypeError
     | Some ta \<Rightarrow> andThen (read strings_of ta) (\<lambda>ts. alloc (StrArray ts))))"

text \<open>\<^verbatim>\<open>flatMap\<close> adds the elements of each array the callback returns to a new array.\<close>

definition flatMap_store_step :: "(addr \<Rightarrow> addr prog) \<Rightarrow> addr \<Rightarrow> addr \<Rightarrow> addr prog" where
  "flatMap_store_step f res p =
     andThen (f p) (\<lambda>r.
     andThen (read strings_of r) (\<lambda>ts.
     andThen (read strings_of res) (\<lambda>cur.
     andThen (assign res (StrArray (cur @ ts))) (\<lambda>_.
     ret res))))"

definition flatMap_store :: "(addr \<Rightarrow> addr prog) \<Rightarrow> addr \<Rightarrow> addr prog" where
  "flatMap_store f posts =
     andThen (read entries_of posts) (\<lambda>ps.
     andThen (alloc (StrArray [])) (\<lambda>res.
     foldM (flatMap_store_step f) res ps))"

definition getAllTags_store :: "addr \<Rightarrow> addr prog" where
  "getAllTags_store posts = flatMap_store getAllTags_callback_store posts"

text \<open>
  \<^verbatim>\<open>new Set(iterable)\<close> creates the set and adds the elements of the iterable to it;
  \<^verbatim>\<open>[...set]\<close> is a new array with its elements.
\<close>

definition Set_add_store :: "addr \<Rightarrow> string \<Rightarrow> addr prog" where
  "Set_add_store st t =
     andThen (read set_of st) (\<lambda>cur.
     andThen (assign st (TagSet (Set_add cur t))) (\<lambda>_.
     ret st))"

definition new_Set_store :: "addr \<Rightarrow> addr prog" where
  "new_Set_store iterable =
     andThen (read strings_of iterable) (\<lambda>ts.
     andThen (alloc (TagSet [])) (\<lambda>st.
     foldM Set_add_store st ts))"

definition getUniqueTags_store :: "addr \<Rightarrow> addr prog" where
  "getUniqueTags_store posts =
     andThen (getAllTags_store posts) (\<lambda>all.
     andThen (new_Set_store all) (\<lambda>st.
     andThen (read set_of st) (\<lambda>elems.
     alloc (StrArray elems))))"

text \<open>
  \<^verbatim>\<open>acc.set(...)\<close> changes the \<^verbatim>\<open>Map\<close> in place and returns it; \<^verbatim>\<open>[...map]\<close> is a new
  array with its entries, which \<^verbatim>\<open>sort\<close> sorts in place and returns.
\<close>

definition getUniqueTagsWithCount_callback_store :: "addr \<Rightarrow> string \<Rightarrow> addr prog" where
  "getUniqueTagsWithCount_callback_store acc t =
     andThen (read counts_of acc) (\<lambda>m.
     andThen (assign acc
       (CountMap (Map_set m t ((case Map_get m t of None \<Rightarrow> 0 | Some c \<Rightarrow> c) + 1)))) (\<lambda>_.
     ret acc))"

definition sort_store :: "((string \<times> int) \<Rightarrow> (string \<times> int) \<Rightarrow> int) \<Rightarrow> addr \<Rightarrow> addr prog" where
  "sort_store compare a =
     andThen (read pairs_of a) (\<lambda>ps.
     andThen (assign a (PairArray (array_sort compare ps))) (\<lambda>_.
     ret a))"

definition getUniqueTagsWithCount_store :: "addr \<Rightarrow> addr prog" where
  "getUniqueTagsWithCount_store posts =
     andThen (getAllTags_store posts) (\<lambda>all.
     andThen (read strings_of all) (\<lambda>ts.
     andThen (alloc (CountMap [])) (\<lambda>m0.
     andThen (foldM getUniqueTagsWithCount_callback_store m0 ts) (\<lambda>m.
     andThen (read counts_of m) (\<lambda>entries.
     andThen (alloc (PairArray entries)) (\<lambda>arr.
     sort_store (\<lambda>a b. snd b - snd a) arr))))))"

subsection \<open>The values a store holds, and notions used in the proofs\<close>

text \<open>
  The entry that stands at an address of the store, when the entry, its \<^verbatim>\<open>data\<close> with all
  three properties, the \<^verbatim>\<open>Date\<close> and the array of tags are there; the array of entries at
  an address, when every one of its entries is.
\<close>

definition decode_entry :: "store \<Rightarrow> addr \<Rightarrow> post option" where
  "decode_entry s e =
     (case entry_of s e of
        None \<Rightarrow> None
      | Some (i, d) \<Rightarrow>
        (case data_of s d of
           Some (Some dr, Some da, Some ta) \<Rightarrow>
             (case (date_of s da, strings_of s ta) of
                (Some dt, Some ts) \<Rightarrow>
                  Some \<lparr>entry_id = i, data = \<lparr>draft = dr, publishDate = dt, tags = ts\<rparr>\<rparr>
              | _ \<Rightarrow> None)
         | _ \<Rightarrow> None))"

definition decode_posts :: "store \<Rightarrow> addr \<Rightarrow> post list option" where
  "decode_posts s a =
     (case entries_of s a of
        None \<Rightarrow> None
      | Some es \<Rightarrow> those (map (decode_entry s) es))"

definition decode_index :: "store \<Rightarrow> addr \<Rightarrow> year \<Rightarrow> post list option" where
  "decode_index s a y =
     (case index_of s a of
        None \<Rightarrow> None
      | Some ix \<Rightarrow>
        (case Map_get ix y of
           None \<Rightarrow> None
         | Some b \<Rightarrow> decode_posts s b))"

text \<open>No object of the store \<open>s0\<close> is changed in \<open>s\<close>; \<open>s\<close> may hold new objects.\<close>

definition unchanged :: "store \<Rightarrow> store \<Rightarrow> bool" where
  "unchanged s0 s = (take (length s0) s = s0)"

text \<open>The test of the visibility filter on an entry.\<close>

definition visible :: "bool \<Rightarrow> post \<Rightarrow> bool" where
  "visible env_PROD e =
     (if env_PROD then \<not> draft (data e) \<and> \<not> startsWith (entry_id e) ''demo/''
      else \<not> draft (data e))"

text \<open>
  The state of the year grouper between two rounds: the objects of the store \<open>s0\<close> it
  started from are as they were; the accumulator is a new object; each of its keys leads to
  a new array of its own, which holds the entries \<open>P y\<close> filed so far under the year \<open>y\<close>,
  at least one; a year that is not a key has no entry so far.
\<close>

definition index_inv ::
    "store \<Rightarrow> addr \<Rightarrow> store \<Rightarrow> (year \<times> addr) list \<Rightarrow> (year \<Rightarrow> post list) \<Rightarrow> bool" where
  "index_inv s0 acc s ix P \<longleftrightarrow>
     unchanged s0 s \<and> length s0 \<le> acc \<and> index_of s acc = Some ix
     \<and> (\<forall>y. Map_get ix y = None \<longrightarrow> P y = [])
     \<and> (\<forall>y b. Map_get ix y = Some b \<longrightarrow>
           length s0 \<le> b \<and> b \<noteq> acc \<and> P y \<noteq> []
           \<and> (\<exists>bs. entries_of s b = Some bs
                 \<and> list_all2 (\<lambda>e p. decode_entry s0 e = Some p) bs (P y)))
     \<and> (\<forall>y y' b. Map_get ix y = Some b \<longrightarrow> Map_get ix y' = Some b \<longrightarrow> y = y')"

text \<open>
  A store with two entries, \<^verbatim>\<open>blog/x\<close> of 2024 with the tags \<^verbatim>\<open>a\<close> and \<^verbatim>\<open>b\<close> and
  \<^verbatim>\<open>demo/y\<close> of 2023 with the tag \<^verbatim>\<open>b\<close>, and at address 8 an array that holds the first,
  the second and the first again.
\<close>

definition example_store :: store where
  "example_store =
     [StrArray [''a'', ''b''], DateObj (Date (Year 2024)),
      Data (Some False) (Some 1) (Some 0), Entry ''blog/x'' 2,
      StrArray [''b''], DateObj (Date (Year 2023)),
      Data (Some False) (Some 5) (Some 4), Entry ''demo/y'' 6,
      EntryArray [3, 7, 3]]"

definition example_posts :: "post list" where
  "example_posts =
     [\<lparr>entry_id = ''blog/x'',
        data = \<lparr>draft = False, publishDate = Date (Year 2024), tags = [''a'', ''b'']\<rparr>\<rparr>,
      \<lparr>entry_id = ''demo/y'',
        data = \<lparr>draft = False, publishDate = Date (Year 2023), tags = [''b'']\<rparr>\<rparr>,
      \<lparr>entry_id = ''blog/x'',
        data = \<lparr>draft = False, publishDate = Date (Year 2024), tags = [''a'', ''b'']\<rparr>\<rparr>]"

section \<open>Properties of the visibility filter\<close>

lemma startsWith_iff: "startsWith s p \<longleftrightarrow> (\<exists>r. s = p @ r)"
proof
  assume "startsWith s p"
  then have "s = p @ drop (length p) s"
    unfolding startsWith_def by (metis append_take_drop_id)
  then show "\<exists>r. s = p @ r" ..
next
  assume "\<exists>r. s = p @ r"
  then show "startsWith s p"
    unfolding startsWith_def by auto
qed

text \<open>
  Claim C1. In production mode the output of the visibility filter holds no entry with
  \<^verbatim>\<open>draft = true\<close> and no entry whose id starts with \<^verbatim>\<open>"demo/"\<close>.
\<close>

theorem getAllPosts_production:
  "\<forall>e \<in> set (getAllPosts True entries).
     \<not> draft (data e) \<and> \<not> startsWith (entry_id e) ''demo/''
       \<and> \<not> (\<exists>r. entry_id e = ''demo/'' @ r)"
  unfolding getAllPosts_def getCollection_def
  by (simp add: Let_def startsWith_iff del: append.simps)

theorem getAllPosts_production_witness:
  "\<lparr>entry_id = ''blog/b'', data = \<lparr>draft = False, publishDate = Date (Year 2025), tags = []\<rparr>\<rparr>
     \<in> set (getAllPosts True
         [\<lparr>entry_id = ''demo/a'', data = \<lparr>draft = False, publishDate = Date (Year 2025), tags = []\<rparr>\<rparr>,
          \<lparr>entry_id = ''blog/b'', data = \<lparr>draft = False, publishDate = Date (Year 2025), tags = []\<rparr>\<rparr>,
          \<lparr>entry_id = ''blog/c'', data = \<lparr>draft = True, publishDate = Date (Year 2025), tags = []\<rparr>\<rparr>])
   \<and> \<not> startsWith ''blog/b'' ''demo/''
   \<and> length (getAllPosts True
         [\<lparr>entry_id = ''demo/a'', data = \<lparr>draft = False, publishDate = Date (Year 2025), tags = []\<rparr>\<rparr>,
          \<lparr>entry_id = ''blog/b'', data = \<lparr>draft = False, publishDate = Date (Year 2025), tags = []\<rparr>\<rparr>,
          \<lparr>entry_id = ''blog/c'', data = \<lparr>draft = True, publishDate = Date (Year 2025), tags = []\<rparr>\<rparr>]) = 1"
  using getAllPosts_production [of
         "[\<lparr>entry_id = ''demo/a'', data = \<lparr>draft = False, publishDate = Date (Year 2025), tags = []\<rparr>\<rparr>,
          \<lparr>entry_id = ''blog/b'', data = \<lparr>draft = False, publishDate = Date (Year 2025), tags = []\<rparr>\<rparr>,
          \<lparr>entry_id = ''blog/c'', data = \<lparr>draft = True, publishDate = Date (Year 2025), tags = []\<rparr>\<rparr>]"]
  by (simp add: getAllPosts_def getCollection_def startsWith_def)

text \<open>
  Claim C2. In development mode the output of the visibility filter is the input sequence
  without the entries that have \<^verbatim>\<open>draft = true\<close>, in the input's order; an entry under
  \<^verbatim>\<open>"demo/"\<close> that is not a draft is kept.
\<close>

theorem getAllPosts_development:
  "getAllPosts False entries = filter (\<lambda>e. \<not> draft (data e)) entries
   \<and> (\<forall>e \<in> set entries.
         startsWith (entry_id e) ''demo/'' \<and> \<not> draft (data e)
           \<longrightarrow> e \<in> set (getAllPosts False entries))"
  by (simp add: getAllPosts_def getCollection_def)

theorem getAllPosts_development_witness:
  "startsWith ''demo/a'' ''demo/''
   \<and> getAllPosts False
         [\<lparr>entry_id = ''demo/a'', data = \<lparr>draft = False, publishDate = Date (Year 2025), tags = []\<rparr>\<rparr>,
          \<lparr>entry_id = ''blog/c'', data = \<lparr>draft = True, publishDate = Date (Year 2025), tags = []\<rparr>\<rparr>,
          \<lparr>entry_id = ''blog/b'', data = \<lparr>draft = False, publishDate = Date (Year 2025), tags = []\<rparr>\<rparr>]
       = [\<lparr>entry_id = ''demo/a'', data = \<lparr>draft = False, publishDate = Date (Year 2025), tags = []\<rparr>\<rparr>,
          \<lparr>entry_id = ''blog/b'', data = \<lparr>draft = False, publishDate = Date (Year 2025), tags = []\<rparr>\<rparr>]"
  using getAllPosts_development [of
         "[\<lparr>entry_id = ''demo/a'', data = \<lparr>draft = False, publishDate = Date (Year 2025), tags = []\<rparr>\<rparr>,
          \<lparr>entry_id = ''blog/c'', data = \<lparr>draft = True, publishDate = Date (Year 2025), tags = []\<rparr>\<rparr>,
          \<lparr>entry_id = ''blog/b'', data = \<lparr>draft = False, publishDate = Date (Year 2025), tags = []\<rparr>\<rparr>]"]
  by (simp add: startsWith_def)

section \<open>Properties of the year grouper\<close>

lemma groupPostsByYear_callback_apply:
  "groupPostsByYear_callback acc p y =
     (if y = year_of p
      then Some ((case acc y of None \<Rightarrow> [] | Some b \<Rightarrow> b) @ [p])
      else acc y)"
  by (auto simp: groupPostsByYear_callback_def year_of_def Let_def split: option.splits)

lemma reduce_groupPostsByYear_callback:
  "reduce groupPostsByYear_callback acc posts y =
     (case acc y of
        None \<Rightarrow>
          (if filter (\<lambda>p. year_of p = y) posts = [] then None
           else Some (filter (\<lambda>p. year_of p = y) posts))
      | Some b \<Rightarrow> Some (b @ filter (\<lambda>p. year_of p = y) posts))"
  by (induction posts arbitrary: acc)
     (auto simp: groupPostsByYear_callback_apply split: option.splits)

lemma groupPostsByYear_bucket:
  "groupPostsByYear posts y =
     (if filter (\<lambda>p. year_of p = y) posts = [] then None
      else Some (filter (\<lambda>p. year_of p = y) posts))"
  by (simp add: groupPostsByYear_def reduce_groupPostsByYear_callback)

text \<open>
  Claim C3. \<^verbatim>\<open>groupPostsByYear\<close> partitions its input: the bucket of a year is the
  subsequence of the input published in that year, in the input's order; an entry of the
  input is in the bucket of its own year and in no other; no key has an empty bucket, and
  a year without entries is not a key.
\<close>

theorem groupPostsByYear_partition:
  "groupPostsByYear posts y =
     (if filter (\<lambda>p. year_of p = y) posts = [] then None
      else Some (filter (\<lambda>p. year_of p = y) posts))
   \<and> (\<forall>p \<in> set posts.
         (\<exists>b. groupPostsByYear posts (year_of p) = Some b \<and> p \<in> set b)
         \<and> (\<forall>y' b'. groupPostsByYear posts y' = Some b' \<and> p \<in> set b' \<longrightarrow> y' = year_of p))
   \<and> groupPostsByYear posts y \<noteq> Some []"
proof -
  have bucket: "groupPostsByYear posts y =
     (if filter (\<lambda>p. year_of p = y) posts = [] then None
      else Some (filter (\<lambda>p. year_of p = y) posts))"
    by (rule groupPostsByYear_bucket)
  have own: "\<exists>b. groupPostsByYear posts (year_of p) = Some b \<and> p \<in> set b"
    if "p \<in> set posts" for p
  proof -
    from that have mem: "p \<in> set (filter (\<lambda>q. year_of q = year_of p) posts)" by simp
    then have "filter (\<lambda>q. year_of q = year_of p) posts \<noteq> []" by force
    then have "groupPostsByYear posts (year_of p)
        = Some (filter (\<lambda>q. year_of q = year_of p) posts)"
      by (simp only: groupPostsByYear_bucket if_False)
    with mem show ?thesis by blast
  qed
  have only: "y' = year_of p"
    if "groupPostsByYear posts y' = Some b' \<and> p \<in> set b'" for p y' b'
  proof -
    from that have "b' = filter (\<lambda>q. year_of q = y') posts"
      by (simp add: groupPostsByYear_bucket split: if_splits)
    with that show ?thesis by simp
  qed
  have nonempty: "groupPostsByYear posts y \<noteq> Some []"
    by (simp add: groupPostsByYear_bucket)
  have each: "\<forall>p \<in> set posts.
         (\<exists>b. groupPostsByYear posts (year_of p) = Some b \<and> p \<in> set b)
         \<and> (\<forall>y' b'. groupPostsByYear posts y' = Some b' \<and> p \<in> set b' \<longrightarrow> y' = year_of p)"
    using own only by blast
  from bucket each nonempty show ?thesis
    by (intro conjI)
qed

theorem groupPostsByYear_partition_witness:
  "groupPostsByYear
      [\<lparr>entry_id = ''a'', data = \<lparr>draft = False, publishDate = Date (Year 2024), tags = []\<rparr>\<rparr>,
       \<lparr>entry_id = ''b'', data = \<lparr>draft = False, publishDate = Date (Year 2023), tags = []\<rparr>\<rparr>,
       \<lparr>entry_id = ''c'', data = \<lparr>draft = False, publishDate = Date (Year 2024), tags = []\<rparr>\<rparr>]
      (Year 2024)
    = Some [\<lparr>entry_id = ''a'', data = \<lparr>draft = False, publishDate = Date (Year 2024), tags = []\<rparr>\<rparr>,
            \<lparr>entry_id = ''c'', data = \<lparr>draft = False, publishDate = Date (Year 2024), tags = []\<rparr>\<rparr>]
   \<and> groupPostsByYear
      [\<lparr>entry_id = ''a'', data = \<lparr>draft = False, publishDate = Date (Year 2024), tags = []\<rparr>\<rparr>,
       \<lparr>entry_id = ''b'', data = \<lparr>draft = False, publishDate = Date (Year 2023), tags = []\<rparr>\<rparr>,
       \<lparr>entry_id = ''c'', data = \<lparr>draft = False, publishDate = Date (Year 2024), tags = []\<rparr>\<rparr>]
      (year_of \<lparr>entry_id = ''b'', data = \<lparr>draft = False, publishDate = Date (Year 2023), tags = []\<rparr>\<rparr>)
    = Some [\<lparr>entry_id = ''b'', data = \<lparr>draft = False, publishDate = Date (Year 2023), tags = []\<rparr>\<rparr>]"
proof -
  let ?a = "\<lparr>entry_id = ''a'', data = \<lparr>draft = False, publishDate = Date (Year 2024), tags = []\<rparr>\<rparr>"
  let ?b = "\<lparr>entry_id = ''b'', data = \<lparr>draft = False, publishDate = Date (Year 2023), tags = []\<rparr>\<rparr>"
  let ?c = "\<lparr>entry_id = ''c'', data = \<lparr>draft = False, publishDate = Date (Year 2024), tags = []\<rparr>\<rparr>"
  note part = groupPostsByYear_partition [of "[?a, ?b, ?c]"]
  have ya: "year_of ?a = Year 2024" and yb: "year_of ?b = Year 2023" and yc: "year_of ?c = Year 2024"
    by (simp_all add: year_of_def)
  have mem: "?b \<in> set [?a, ?b, ?c]" by simp
  have 1: "groupPostsByYear [?a, ?b, ?c] (Year 2024) = Some [?a, ?c]"
    using part [of "Year 2024"] by (simp add: ya yb yc)
  have 2: "groupPostsByYear [?a, ?b, ?c] (year_of ?b) = Some [?b]"
    using part [of "Year 2023"] by (simp add: ya yb yc)
  from 1 2 show ?thesis by (rule conjI)
qed

section \<open>Properties of the tag aggregator\<close>

subsection \<open>All tags\<close>

lemma flatMap_concat: "flatMap f xs = concat (map f xs)"
  by (induction xs) simp_all

lemma flatMap_append: "flatMap f (xs @ ys) = flatMap f xs @ flatMap f ys"
  by (induction xs) simp_all

lemma length_flatMap: "length (flatMap f xs) = sum_list (map (\<lambda>x. length (f x)) xs)"
  by (induction xs) simp_all

lemma count_list_flatMap:
  "count_list (flatMap f xs) t = sum_list (map (\<lambda>x. count_list (f x) t) xs)"
  by (induction xs) simp_all

text \<open>
  Claim C4. \<^verbatim>\<open>getAllTags\<close> is the concatenation of the entries' tag lists in the order
  of the entries, each list as it stands and every duplicate kept; its length is the sum of
  the lengths of the tag lists, and an entry without tags adds nothing.
\<close>

theorem getAllTags_concat:
  "getAllTags posts = concat (map (\<lambda>p. tags (data p)) posts)
   \<and> length (getAllTags posts) = sum_list (map (\<lambda>p. length (tags (data p))) posts)
   \<and> getAllTags (ps @ p # qs) = getAllTags ps @ tags (data p) @ getAllTags qs
   \<and> (tags (data p) = [] \<longrightarrow> getAllTags (ps @ p # qs) = getAllTags (ps @ qs))"
proof (intro conjI)
  show "getAllTags posts = concat (map (\<lambda>p. tags (data p)) posts)"
    unfolding getAllTags_def by (rule flatMap_concat)
  show "length (getAllTags posts) = sum_list (map (\<lambda>p. length (tags (data p))) posts)"
    unfolding getAllTags_def by (rule length_flatMap)
  show "getAllTags (ps @ p # qs) = getAllTags ps @ tags (data p) @ getAllTags qs"
    unfolding getAllTags_def by (simp add: flatMap_append)
  show "tags (data p) = [] \<longrightarrow> getAllTags (ps @ p # qs) = getAllTags (ps @ qs)"
    unfolding getAllTags_def by (simp add: flatMap_append)
qed

theorem getAllTags_concat_witness:
  "tags (data \<lparr>entry_id = ''b'', data = \<lparr>draft = False, publishDate = Date (Year 2023), tags = []\<rparr>\<rparr>) = []
   \<and> getAllTags
       ([\<lparr>entry_id = ''a'', data = \<lparr>draft = False, publishDate = Date (Year 2024), tags = [''x'', ''y'', ''x'']\<rparr>\<rparr>]
        @ \<lparr>entry_id = ''b'', data = \<lparr>draft = False, publishDate = Date (Year 2023), tags = []\<rparr>\<rparr>
        # [\<lparr>entry_id = ''c'', data = \<lparr>draft = True, publishDate = Date NaN, tags = [''y'']\<rparr>\<rparr>])
     = [''x'', ''y'', ''x'', ''y'']
   \<and> getAllTags
       ([\<lparr>entry_id = ''a'', data = \<lparr>draft = False, publishDate = Date (Year 2024), tags = [''x'', ''y'', ''x'']\<rparr>\<rparr>]
        @ [\<lparr>entry_id = ''c'', data = \<lparr>draft = True, publishDate = Date NaN, tags = [''y'']\<rparr>\<rparr>])
     = [''x'', ''y'', ''x'', ''y'']"
  using getAllTags_concat [of
      "[\<lparr>entry_id = ''a'', data = \<lparr>draft = False, publishDate = Date (Year 2024), tags = [''x'', ''y'', ''x'']\<rparr>\<rparr>]
        @ \<lparr>entry_id = ''b'', data = \<lparr>draft = False, publishDate = Date (Year 2023), tags = []\<rparr>\<rparr>
        # [\<lparr>entry_id = ''c'', data = \<lparr>draft = True, publishDate = Date NaN, tags = [''y'']\<rparr>\<rparr>]"
      "[\<lparr>entry_id = ''a'', data = \<lparr>draft = False, publishDate = Date (Year 2024), tags = [''x'', ''y'', ''x'']\<rparr>\<rparr>]"
      "\<lparr>entry_id = ''b'', data = \<lparr>draft = False, publishDate = Date (Year 2023), tags = []\<rparr>\<rparr>"
      "[\<lparr>entry_id = ''c'', data = \<lparr>draft = True, publishDate = Date NaN, tags = [''y'']\<rparr>\<rparr>]"]
  by (simp add: getAllTags_def)

subsection \<open>Unique tags\<close>

lemma set_first_occurrences: "set (first_occurrences xs) = set xs"
  by (induction xs rule: first_occurrences.induct) auto

lemma distinct_first_occurrences: "distinct (first_occurrences xs)"
  by (induction xs rule: first_occurrences.induct) (auto simp: set_first_occurrences)

lemma remdups_snoc: "remdups (ys @ [x]) = remdups (removeAll x ys) @ [x]"
  by (induction ys) auto

lemma first_occurrences_remdups: "first_occurrences xs = rev (remdups (rev xs))"
  by (induction xs rule: first_occurrences.induct)
     (simp_all add: remdups_snoc removeAll_filter_not_eq rev_filter)

lemma reduce_Set_add:
  "reduce Set_add s xs = s @ first_occurrences (filter (\<lambda>x. x \<notin> set s) xs)"
proof (induction xs arbitrary: s)
  case Nil
  show ?case by simp
next
  case (Cons x xs)
  show ?case
  proof (cases "x \<in> set s")
    case True
    then show ?thesis using Cons.IH [of s] by (simp add: Set_add_def)
  next
    case False
    have "removeAll x (filter (\<lambda>y. y \<notin> set s) xs) = filter (\<lambda>y. y \<notin> set (s @ [x])) xs"
      by (induction xs) auto
    then show ?thesis using False Cons.IH [of "s @ [x]"] by (simp add: Set_add_def)
  qed
qed

lemma new_Set_first_occurrences: "new_Set xs = first_occurrences xs"
  by (simp add: new_Set_def reduce_Set_add)

text \<open>
  Claim C5. \<^verbatim>\<open>getUniqueTags\<close> gives the distinct elements of \<^verbatim>\<open>getAllTags\<close> in the order
  of their first occurrence: no value twice, every element of it an element of
  \<^verbatim>\<open>getAllTags\<close>, and every element of \<^verbatim>\<open>getAllTags\<close> an element of it.
\<close>

theorem getUniqueTags_first_occurrences:
  "getUniqueTags posts = first_occurrences (getAllTags posts)
   \<and> getUniqueTags posts = rev (remdups (rev (getAllTags posts)))
   \<and> distinct (getUniqueTags posts)
   \<and> set (getUniqueTags posts) = set (getAllTags posts)"
proof -
  have eq: "getUniqueTags posts = first_occurrences (getAllTags posts)"
    by (simp add: getUniqueTags_def new_Set_first_occurrences)
  then show ?thesis
    using first_occurrences_remdups [of "getAllTags posts"]
    by (simp add: distinct_first_occurrences set_first_occurrences)
qed

theorem getUniqueTags_first_occurrences_witness:
  "getUniqueTags
     [\<lparr>entry_id = ''p'', data = \<lparr>draft = False, publishDate = Date (Year 2024), tags = [''b'', ''a'', ''b'']\<rparr>\<rparr>,
      \<lparr>entry_id = ''q'', data = \<lparr>draft = False, publishDate = Date (Year 2024), tags = [''a'', ''c'']\<rparr>\<rparr>]
   = [''b'', ''a'', ''c'']"
proof -
  let ?P = "[\<lparr>entry_id = ''p'', data = \<lparr>draft = False, publishDate = Date (Year 2024), tags = [''b'', ''a'', ''b'']\<rparr>\<rparr>,
      \<lparr>entry_id = ''q'', data = \<lparr>draft = False, publishDate = Date (Year 2024), tags = [''a'', ''c'']\<rparr>\<rparr>]"
  have all: "getAllTags ?P = [''b'', ''a'', ''b'', ''a'', ''c'']"
    by (simp add: getAllTags_def)
  have "getUniqueTags ?P = first_occurrences (getAllTags ?P)"
    using getUniqueTags_first_occurrences [of ?P] by (rule conjunct1)
  also have "\<dots> = [''b'', ''a'', ''c'']"
    unfolding all by simp
  finally show ?thesis .
qed

subsection \<open>The counting map\<close>

lemma lookup0_Nil: "lookup0 [] k = 0"
  by (simp add: lookup0_def)

lemma keys_Map_set: "map fst (Map_set m k v) = Set_add (map fst m) k"
  by (induction m) (force simp: Set_add_def)+

lemma Map_get_Map_set:
  "Map_get (Map_set m k v) k' = (if k' = k then Some v else Map_get m k')"
  by (induction m) auto

lemma Map_get_entry:
  "distinct (map fst m) \<Longrightarrow> (k, v) \<in> set m \<Longrightarrow> Map_get m k = Some v"
  by (induction m) force+

lemma keys_callback:
  "map fst (getUniqueTagsWithCount_callback m t) = Set_add (map fst m) t"
  by (simp add: getUniqueTagsWithCount_callback_def keys_Map_set)

lemma lookup0_callback:
  "lookup0 (getUniqueTagsWithCount_callback m t) k = lookup0 m k + (if k = t then 1 else 0)"
  by (simp add: getUniqueTagsWithCount_callback_def lookup0_def Map_get_Map_set)

lemma keys_reduce_callback:
  "map fst (reduce getUniqueTagsWithCount_callback m xs) = reduce Set_add (map fst m) xs"
  by (induction xs arbitrary: m) (simp_all add: keys_callback)

lemma lookup0_reduce_callback:
  "lookup0 (reduce getUniqueTagsWithCount_callback m xs) k = lookup0 m k + int (count_list xs k)"
  by (induction xs arbitrary: m) (simp_all add: lookup0_callback)

lemma entries_by_keys:
  assumes "distinct (map fst m)"
  shows "map (\<lambda>k. (k, lookup0 m k)) (map fst m) = m"
proof -
  have "(fst e, lookup0 m (fst e)) = e" if "e \<in> set m" for e
    using that Map_get_entry [OF assms, of "fst e" "snd e"] by (simp add: lookup0_def)
  then have "map (\<lambda>e. (fst e, lookup0 m (fst e))) m = m"
    by (intro map_idI)
  then show ?thesis by (simp add: comp_def)
qed

text \<open>
  The counting map after the pass over the tags: one entry for each distinct tag, in the
  order of first occurrence, with the number of occurrences of the tag.
\<close>

lemma counting_map:
  "reduce getUniqueTagsWithCount_callback [] xs =
     map (\<lambda>t. (t, int (count_list xs t))) (first_occurrences xs)"
proof -
  let ?r = "reduce getUniqueTagsWithCount_callback [] xs"
  have keys: "map fst ?r = first_occurrences xs"
    using keys_reduce_callback [of "[]" xs] by (simp add: reduce_Set_add)
  then have "distinct (map fst ?r)" by (simp add: distinct_first_occurrences)
  then have "?r = map (\<lambda>k. (k, lookup0 ?r k)) (map fst ?r)"
    by (simp only: entries_by_keys)
  also have "\<dots> = map (\<lambda>k. (k, int (count_list xs k))) (first_occurrences xs)"
    unfolding keys by (simp add: lookup0_reduce_callback lookup0_Nil)
  finally show ?thesis .
qed

lemma sum_Map_set:
  "sum_list (map snd (Map_set m k v)) = sum_list (map snd m) + v - lookup0 m k"
  by (induction m) (auto simp: lookup0_def)

lemma sum_callback:
  "sum_list (map snd (getUniqueTagsWithCount_callback m t)) = sum_list (map snd m) + 1"
  by (simp add: getUniqueTagsWithCount_callback_def sum_Map_set lookup0_def)

lemma sum_reduce_callback:
  "sum_list (map snd (reduce getUniqueTagsWithCount_callback m xs))
     = sum_list (map snd m) + int (length xs)"
  by (induction xs arbitrary: m) (simp_all add: sum_callback)

subsection \<open>The sort by count\<close>

lemma set_sort_insert: "set (sort_insert compare x ys) = insert x (set ys)"
  by (induction ys) auto

lemma set_array_sort: "set (array_sort compare xs) = set xs"
  unfolding array_sort_def by (induction xs) (auto simp: set_sort_insert)

lemma sum_sort_insert:
  "sum_list (map snd (sort_insert compare x ys)) = (snd x :: int) + sum_list (map snd ys)"
  by (induction ys) auto

lemma sum_array_sort:
  "sum_list (map snd (array_sort compare xs)) = (sum_list (map snd xs) :: int)"
  unfolding array_sort_def by (induction xs) (auto simp: sum_sort_insert)

lemma sorted_sort_insert:
  "sorted_wrt (\<lambda>a b. snd a \<ge> snd b) ys \<Longrightarrow>
   sorted_wrt (\<lambda>a b. snd a \<ge> snd b) (sort_insert (\<lambda>a b. snd b - snd a) x ys)"
  by (induction ys) (auto simp: set_sort_insert)

lemma sorted_array_sort:
  "sorted_wrt (\<lambda>a b. snd a \<ge> snd b) (array_sort (\<lambda>a b. snd b - snd a) xs)"
  unfolding array_sort_def by (induction xs) (auto simp: sorted_sort_insert)

lemma filter_sort_insert:
  "filter (\<lambda>e. snd e = c) (sort_insert (\<lambda>a b. snd b - snd a) x ys) =
     (if snd x = c then x # filter (\<lambda>e. snd e = c) ys else filter (\<lambda>e. snd e = c) ys)"
  by (induction ys) auto

lemma filter_array_sort:
  "filter (\<lambda>e. snd e = c) (array_sort (\<lambda>a b. snd b - snd a) xs) = filter (\<lambda>e. snd e = c) xs"
  unfolding array_sort_def by (induction xs) (auto simp: filter_sort_insert)

lemma count_at_most_once:
  assumes "\<forall>x \<in> set xs. count_list (f x) t \<le> 1"
  shows "sum_list (map (\<lambda>x. count_list (f x) t) xs) = length (filter (\<lambda>x. t \<in> set (f x)) xs)"
  using assms
proof (induction xs)
  case Nil
  show ?case by simp
next
  case (Cons x xs)
  then have le: "count_list (f x) t \<le> 1" by simp
  have "count_list (f x) t = (if t \<in> set (f x) then 1 else 0)"
    using le count_list_0_iff [of "f x" t] by (cases "t \<in> set (f x)") auto
  then show ?case using Cons by simp
qed

lemma set_getUniqueTagsWithCount:
  "set (getUniqueTagsWithCount posts) =
     (\<lambda>t. (t, int (count_list (getAllTags posts) t))) ` set (getAllTags posts)"
  by (simp add: getUniqueTagsWithCount_def set_array_sort counting_map set_first_occurrences)

subsection \<open>Tags with their counts\<close>

text \<open>
  Claim C6, as the code has it. The count paired with a tag in the output of
  \<^verbatim>\<open>getUniqueTagsWithCount\<close> is the number of occurrences of the tag in \<^verbatim>\<open>getAllTags\<close>,
  which is the sum over the entries of the occurrences of the tag in each tag list. It is
  the number of entries whose tag list contains the tag when no entry's tag list contains
  the tag more than once.
\<close>

theorem getUniqueTagsWithCount_count:
  assumes "(t, c) \<in> set (getUniqueTagsWithCount posts)"
  shows "c = int (count_list (getAllTags posts) t)
    \<and> c = int (sum_list (map (\<lambda>p. count_list (tags (data p)) t) posts))
    \<and> ((\<forall>p \<in> set posts. count_list (tags (data p)) t \<le> 1)
         \<longrightarrow> c = int (length (filter (\<lambda>p. t \<in> set (tags (data p))) posts)))"
proof -
  from assms have c: "c = int (count_list (getAllTags posts) t)"
    unfolding set_getUniqueTagsWithCount by auto
  have s: "count_list (getAllTags posts) t
      = sum_list (map (\<lambda>p. count_list (tags (data p)) t) posts)"
    unfolding getAllTags_def by (rule count_list_flatMap)
  have "sum_list (map (\<lambda>p. count_list (tags (data p)) t) posts)
      = length (filter (\<lambda>p. t \<in> set (tags (data p))) posts)"
    if "\<forall>p \<in> set posts. count_list (tags (data p)) t \<le> 1"
    using that by (rule count_at_most_once)
  with c s show ?thesis by simp
qed

theorem getUniqueTagsWithCount_count_witness:
  "(''b'', 2) \<in> set (getUniqueTagsWithCount
       [\<lparr>entry_id = ''p'', data = \<lparr>draft = False, publishDate = Date (Year 2024), tags = [''a'', ''b'']\<rparr>\<rparr>,
        \<lparr>entry_id = ''q'', data = \<lparr>draft = False, publishDate = Date (Year 2024), tags = [''b'']\<rparr>\<rparr>])
   \<and> count_list [''a'', ''b''] ''b'' \<le> 1 \<and> count_list [''b''] ''b'' \<le> 1
   \<and> (2::int) = int (length (filter (\<lambda>p. ''b'' \<in> set (tags (data p)))
       [\<lparr>entry_id = ''p'', data = \<lparr>draft = False, publishDate = Date (Year 2024), tags = [''a'', ''b'']\<rparr>\<rparr>,
        \<lparr>entry_id = ''q'', data = \<lparr>draft = False, publishDate = Date (Year 2024), tags = [''b'']\<rparr>\<rparr>]))"
proof -
  let ?P = "[\<lparr>entry_id = ''p'', data = \<lparr>draft = False, publishDate = Date (Year 2024), tags = [''a'', ''b'']\<rparr>\<rparr>,
        \<lparr>entry_id = ''q'', data = \<lparr>draft = False, publishDate = Date (Year 2024), tags = [''b'']\<rparr>\<rparr>]"
  have out: "getUniqueTagsWithCount ?P = [(''b'', 2), (''a'', 1)]"
    by (simp add: getUniqueTagsWithCount_def getAllTags_def array_sort_def
          getUniqueTagsWithCount_callback_def)
  then have mem: "(''b'', 2) \<in> set (getUniqueTagsWithCount ?P)" by simp
  have le: "\<forall>p \<in> set ?P. count_list (tags (data p)) ''b'' \<le> 1" by simp
  have res: "(2::int) = int (length (filter (\<lambda>p. ''b'' \<in> set (tags (data p))) ?P))"
    by (rule mp [OF getUniqueTagsWithCount_count [OF mem, THEN conjunct2, THEN conjunct2] le])
  have once: "count_list [''a'', ''b''] ''b'' \<le> 1" "count_list [''b''] ''b'' \<le> 1"
    by simp_all
  from mem once res show ?thesis by (intro conjI)
qed

text \<open>
  The count is not the number of entries with the tag: one entry that carries the tag
  \<^verbatim>\<open>a\<close> twice gives the pair \<^verbatim>\<open>["a", 2]\<close>.
\<close>

theorem getUniqueTagsWithCount_count_counterexample:
  "(''a'', 2) \<in> set (getUniqueTagsWithCount
      [\<lparr>entry_id = ''p'', data = \<lparr>draft = False, publishDate = Date (Year 2024), tags = [''a'', ''a'']\<rparr>\<rparr>])
   \<and> (2::int) \<noteq> int (length (filter (\<lambda>p. ''a'' \<in> set (tags (data p)))
      [\<lparr>entry_id = ''p'', data = \<lparr>draft = False, publishDate = Date (Year 2024), tags = [''a'', ''a'']\<rparr>\<rparr>]))"
proof
  have "getUniqueTagsWithCount
      [\<lparr>entry_id = ''p'', data = \<lparr>draft = False, publishDate = Date (Year 2024), tags = [''a'', ''a'']\<rparr>\<rparr>]
     = [(''a'', 2)]"
    by (simp add: getUniqueTagsWithCount_def getAllTags_def array_sort_def
          getUniqueTagsWithCount_callback_def)
  then show "(''a'', 2) \<in> set (getUniqueTagsWithCount
      [\<lparr>entry_id = ''p'', data = \<lparr>draft = False, publishDate = Date (Year 2024), tags = [''a'', ''a'']\<rparr>\<rparr>])"
    by simp
  show "(2::int) \<noteq> int (length (filter (\<lambda>p. ''a'' \<in> set (tags (data p)))
      [\<lparr>entry_id = ''p'', data = \<lparr>draft = False, publishDate = Date (Year 2024), tags = [''a'', ''a'']\<rparr>\<rparr>]))"
    by simp
qed

text \<open>
  Claim C7. The counts in the output of \<^verbatim>\<open>getUniqueTagsWithCount\<close> sum to the length of
  \<^verbatim>\<open>getAllTags\<close>, and the output is sorted by count, non-increasing.
\<close>

theorem getUniqueTagsWithCount_sum_sorted:
  "sum_list (map snd (getUniqueTagsWithCount posts)) = int (length (getAllTags posts))
   \<and> sorted_wrt (\<lambda>a b. snd a \<ge> snd b) (getUniqueTagsWithCount posts)"
proof
  show "sum_list (map snd (getUniqueTagsWithCount posts)) = int (length (getAllTags posts))"
    unfolding getUniqueTagsWithCount_def
    by (simp add: sum_array_sort sum_reduce_callback)
  show "sorted_wrt (\<lambda>a b. snd a \<ge> snd b) (getUniqueTagsWithCount posts)"
    unfolding getUniqueTagsWithCount_def by (rule sorted_array_sort)
qed

theorem getUniqueTagsWithCount_sum_sorted_witness:
  "sum_list (map snd (getUniqueTagsWithCount
     [\<lparr>entry_id = ''p'', data = \<lparr>draft = False, publishDate = Date (Year 2024), tags = [''b'', ''a'', ''b'']\<rparr>\<rparr>,
      \<lparr>entry_id = ''q'', data = \<lparr>draft = False, publishDate = Date (Year 2024), tags = [''a'', ''c'']\<rparr>\<rparr>]))
   = 5"
proof -
  let ?P = "[\<lparr>entry_id = ''p'', data = \<lparr>draft = False, publishDate = Date (Year 2024), tags = [''b'', ''a'', ''b'']\<rparr>\<rparr>,
      \<lparr>entry_id = ''q'', data = \<lparr>draft = False, publishDate = Date (Year 2024), tags = [''a'', ''c'']\<rparr>\<rparr>]"
  have all: "getAllTags ?P = [''b'', ''a'', ''b'', ''a'', ''c'']"
    by (simp add: getAllTags_def)
  have "sum_list (map snd (getUniqueTagsWithCount ?P)) = int (length (getAllTags ?P))"
    using getUniqueTagsWithCount_sum_sorted [of ?P] by (rule conjunct1)
  also have "\<dots> = 5"
    unfolding all by simp
  finally show ?thesis .
qed

text \<open>
  Claim C8. The example of the specification: three entries with the tag lists
  \<^verbatim>\<open>["a","b"]\<close>, \<^verbatim>\<open>["b"]\<close> and \<^verbatim>\<open>["a"]\<close>, whatever their other fields.
\<close>

theorem tags_example:
  "getAllTags
      [\<lparr>entry_id = i1, data = \<lparr>draft = d1, publishDate = y1, tags = [''a'', ''b'']\<rparr>\<rparr>,
       \<lparr>entry_id = i2, data = \<lparr>draft = d2, publishDate = y2, tags = [''b'']\<rparr>\<rparr>,
       \<lparr>entry_id = i3, data = \<lparr>draft = d3, publishDate = y3, tags = [''a'']\<rparr>\<rparr>]
     = [''a'', ''b'', ''b'', ''a'']
   \<and> getUniqueTags
      [\<lparr>entry_id = i1, data = \<lparr>draft = d1, publishDate = y1, tags = [''a'', ''b'']\<rparr>\<rparr>,
       \<lparr>entry_id = i2, data = \<lparr>draft = d2, publishDate = y2, tags = [''b'']\<rparr>\<rparr>,
       \<lparr>entry_id = i3, data = \<lparr>draft = d3, publishDate = y3, tags = [''a'']\<rparr>\<rparr>]
     = [''a'', ''b'']
   \<and> getUniqueTagsWithCount
      [\<lparr>entry_id = i1, data = \<lparr>draft = d1, publishDate = y1, tags = [''a'', ''b'']\<rparr>\<rparr>,
       \<lparr>entry_id = i2, data = \<lparr>draft = d2, publishDate = y2, tags = [''b'']\<rparr>\<rparr>,
       \<lparr>entry_id = i3, data = \<lparr>draft = d3, publishDate = y3, tags = [''a'']\<rparr>\<rparr>]
     = [(''a'', 2), (''b'', 2)]"
  by (simp add: getUniqueTagsWithCount_def getUniqueTags_def getAllTags_def array_sort_def
        getUniqueTagsWithCount_callback_def new_Set_def Set_add_def)

text \<open>
  Claim C10. The order of the output of \<^verbatim>\<open>getUniqueTagsWithCount\<close> is determined, ties
  included: it is the stable sort, by count descending, of the distinct tags in the order
  of their first occurrence in \<^verbatim>\<open>getAllTags\<close>, so the entries with one and the same count
  stand in the order of the first occurrences of their tags.
\<close>

theorem getUniqueTagsWithCount_order:
  "getUniqueTagsWithCount posts =
     array_sort (\<lambda>a b. snd b - snd a)
       (map (\<lambda>t. (t, int (count_list (getAllTags posts) t))) (getUniqueTags posts))
   \<and> filter (\<lambda>e. snd e = c) (getUniqueTagsWithCount posts) =
     map (\<lambda>t. (t, c))
       (filter (\<lambda>t. int (count_list (getAllTags posts) t) = c)
         (first_occurrences (getAllTags posts)))"
proof
  show "getUniqueTagsWithCount posts =
     array_sort (\<lambda>a b. snd b - snd a)
       (map (\<lambda>t. (t, int (count_list (getAllTags posts) t))) (getUniqueTags posts))"
    by (simp add: getUniqueTagsWithCount_def counting_map getUniqueTags_def
          new_Set_first_occurrences)
  have "filter (\<lambda>e. snd e = c) (getUniqueTagsWithCount posts) =
     filter (\<lambda>e. snd e = c)
       (map (\<lambda>t. (t, int (count_list (getAllTags posts) t))) (first_occurrences (getAllTags posts)))"
    by (simp add: getUniqueTagsWithCount_def counting_map filter_array_sort)
  also have "\<dots> = map (\<lambda>t. (t, int (count_list (getAllTags posts) t)))
       (filter (\<lambda>t. int (count_list (getAllTags posts) t) = c)
         (first_occurrences (getAllTags posts)))"
    by (simp add: filter_map comp_def)
  also have "\<dots> = map (\<lambda>t. (t, c))
       (filter (\<lambda>t. int (count_list (getAllTags posts) t) = c)
         (first_occurrences (getAllTags posts)))"
    by (rule map_cong) auto
  finally show "filter (\<lambda>e. snd e = c) (getUniqueTagsWithCount posts) =
     map (\<lambda>t. (t, c))
       (filter (\<lambda>t. int (count_list (getAllTags posts) t) = c)
         (first_occurrences (getAllTags posts)))" .
qed

theorem getUniqueTagsWithCount_order_witness:
  "filter (\<lambda>e. snd e = 2) (getUniqueTagsWithCount
     [\<lparr>entry_id = ''p'', data = \<lparr>draft = False, publishDate = Date (Year 2024), tags = [''b'', ''a'', ''b'']\<rparr>\<rparr>,
      \<lparr>entry_id = ''q'', data = \<lparr>draft = False, publishDate = Date (Year 2024), tags = [''a'', ''c'']\<rparr>\<rparr>])
   = [(''b'', 2), (''a'', 2)]"
proof -
  let ?P = "[\<lparr>entry_id = ''p'', data = \<lparr>draft = False, publishDate = Date (Year 2024), tags = [''b'', ''a'', ''b'']\<rparr>\<rparr>,
      \<lparr>entry_id = ''q'', data = \<lparr>draft = False, publishDate = Date (Year 2024), tags = [''a'', ''c'']\<rparr>\<rparr>]"
  have all: "getAllTags ?P = [''b'', ''a'', ''b'', ''a'', ''c'']"
    by (simp add: getAllTags_def)
  have "filter (\<lambda>e. snd e = 2) (getUniqueTagsWithCount ?P) =
     map (\<lambda>t. (t, 2))
       (filter (\<lambda>t. int (count_list (getAllTags ?P) t) = 2)
         (first_occurrences (getAllTags ?P)))"
    using getUniqueTagsWithCount_order [of ?P 2] by (rule conjunct2)
  also have "\<dots> = [(''b'', 2), (''a'', 2)]"
    unfolding all by simp
  finally show ?thesis .
qed

section \<open>Properties of the module on a store\<close>

subsection \<open>Objects that stay as they are\<close>

lemma unchanged_refl: "unchanged s s"
  by (simp add: unchanged_def)

lemma unchanged_length: "unchanged s0 s \<Longrightarrow> length s0 \<le> length s"
  unfolding unchanged_def by (metis length_take min.cobounded1)

lemma unchanged_alloc: "unchanged s0 s \<Longrightarrow> unchanged s0 (s @ [ob])"
  using unchanged_length [of s0 s] by (simp add: unchanged_def)

lemma unchanged_assign: "unchanged s0 s \<Longrightarrow> length s0 \<le> a \<Longrightarrow> unchanged s0 (s[a := ob])"
  by (simp add: unchanged_def)

lemma unchanged_lookup:
  assumes "unchanged s0 s" and "lookup s0 a = Some ob"
  shows "lookup s a = Some ob"
proof -
  from assms(2) have a: "a < length s0" and ob: "s0 ! a = ob"
    by (auto simp: lookup_def split: if_splits)
  from assms(1) have "take (length s0) s ! a = s0 ! a" by (simp add: unchanged_def)
  with a have "s ! a = s0 ! a" by simp
  with a ob unchanged_length [OF assms(1)] show ?thesis by (simp add: lookup_def)
qed

lemma unchanged_entry_of:
  "unchanged s0 s \<Longrightarrow> entry_of s0 a = Some v \<Longrightarrow> entry_of s a = Some v"
  unfolding entry_of_def
  by (cases "lookup s0 a") (auto dest: unchanged_lookup)

lemma unchanged_data_of:
  "unchanged s0 s \<Longrightarrow> data_of s0 a = Some v \<Longrightarrow> data_of s a = Some v"
  unfolding data_of_def
  by (cases "lookup s0 a") (auto dest: unchanged_lookup)

lemma unchanged_date_of:
  "unchanged s0 s \<Longrightarrow> date_of s0 a = Some v \<Longrightarrow> date_of s a = Some v"
  unfolding date_of_def
  by (cases "lookup s0 a") (auto dest: unchanged_lookup)

lemma unchanged_strings_of:
  "unchanged s0 s \<Longrightarrow> strings_of s0 a = Some v \<Longrightarrow> strings_of s a = Some v"
  unfolding strings_of_def
  by (cases "lookup s0 a") (auto dest: unchanged_lookup)

subsection \<open>Entries in the store\<close>

lemma decode_entry_Some:
  "decode_entry s e = Some p \<longleftrightarrow>
     (\<exists>d da ta.
        entry_of s e = Some (entry_id p, d)
        \<and> data_of s d = Some (Some (draft (data p)), Some da, Some ta)
        \<and> date_of s da = Some (publishDate (data p))
        \<and> strings_of s ta = Some (tags (data p)))"
  unfolding decode_entry_def
  by (cases p) (auto split: option.splits prod.splits)

lemma unchanged_decode_entry:
  assumes "unchanged s0 s" and "decode_entry s0 e = Some p"
  shows "decode_entry s e = Some p"
proof -
  from assms(2) obtain d da ta where
    "entry_of s0 e = Some (entry_id p, d)"
    "data_of s0 d = Some (Some (draft (data p)), Some da, Some ta)"
    "date_of s0 da = Some (publishDate (data p))"
    "strings_of s0 ta = Some (tags (data p))"
    unfolding decode_entry_Some by blast
  with assms(1) have
    "entry_of s e = Some (entry_id p, d)"
    "data_of s d = Some (Some (draft (data p)), Some da, Some ta)"
    "date_of s da = Some (publishDate (data p))"
    "strings_of s ta = Some (tags (data p))"
    by (simp_all add: unchanged_entry_of unchanged_data_of unchanged_date_of
          unchanged_strings_of)
  then show ?thesis unfolding decode_entry_Some by blast
qed

lemma those_map_Some:
  "those (map f xs) = Some ys \<longleftrightarrow> list_all2 (\<lambda>x y. f x = Some y) xs ys"
proof (induction xs arbitrary: ys)
  case Nil
  show ?case by auto
next
  case (Cons x xs)
  show ?case
    by (cases "f x"; cases ys) (auto simp: Cons.IH list_all2_Cons1)
qed

lemma decode_posts_Some:
  "decode_posts s a = Some ps \<longleftrightarrow>
     (\<exists>es. entries_of s a = Some es \<and> list_all2 (\<lambda>e p. decode_entry s e = Some p) es ps)"
  unfolding decode_posts_def
  by (cases "entries_of s a") (simp_all add: those_map_Some)

lemma unchanged_decoded:
  "unchanged s0 s \<Longrightarrow> list_all2 (\<lambda>e p. decode_entry s0 e = Some p) es ps
     \<Longrightarrow> list_all2 (\<lambda>e p. decode_entry s e = Some p) es ps"
  by (erule list_all2_mono) (rule unchanged_decode_entry)

subsection \<open>The visibility filter on a store\<close>

lemma getAllPosts_callback_store_run:
  assumes "decode_entry s e = Some p"
  shows "getAllPosts_callback_store env_PROD e s = Inr (visible env_PROD p, s)"
proof -
  from assms obtain d da ta where
    e: "entry_of s e = Some (entry_id p, d)" and
    d: "data_of s d = Some (Some (draft (data p)), Some da, Some ta)"
    unfolding decode_entry_Some by blast
  show ?thesis
    unfolding getAllPosts_callback_store_def
    by (simp add: andThen_def read_def ret_def e d visible_def not_draft_def Let_def)
qed

lemma filterM_getAllPosts_callback_store:
  assumes "list_all2 (\<lambda>e p. decode_entry s e = Some p) es ps"
  shows "\<exists>kept. filterM (getAllPosts_callback_store env_PROD) es s = Inr (kept, s)
           \<and> list_all2 (\<lambda>e p. decode_entry s e = Some p) kept (filter (visible env_PROD) ps)"
  using assms
proof (induction rule: list_all2_induct)
  case Nil
  show ?case by (simp add: ret_def)
next
  case (Cons e es p ps)
  from Cons.IH obtain kept where
    run: "filterM (getAllPosts_callback_store env_PROD) es s = Inr (kept, s)" and
    dec: "list_all2 (\<lambda>e p. decode_entry s e = Some p) kept (filter (visible env_PROD) ps)"
    by blast
  have "filterM (getAllPosts_callback_store env_PROD) (e # es) s
      = Inr (if visible env_PROD p then e # kept else kept, s)"
    by (simp add: andThen_def ret_def getAllPosts_callback_store_run [OF Cons.hyps(1)] run)
  with dec Cons.hyps(1) show ?case by simp
qed

lemma getAllPosts_visible: "getAllPosts env_PROD ps = filter (visible env_PROD) ps"
  unfolding getAllPosts_def getCollection_def
  by (rule filter_cong) (simp_all add: visible_def Let_def)

lemma getAllPosts_store_run:
  assumes "decode_posts s a = Some ps"
  shows "\<exists>r s'. getAllPosts_store env_PROD a s = Inr (r, s') \<and> unchanged s s'
           \<and> decode_posts s' r = Some (getAllPosts env_PROD ps)"
proof -
  from assms obtain es where
    es: "entries_of s a = Some es" and
    dec: "list_all2 (\<lambda>e p. decode_entry s e = Some p) es ps"
    unfolding decode_posts_Some by blast
  from filterM_getAllPosts_callback_store [OF dec, of env_PROD] obtain kept where
    run: "filterM (getAllPosts_callback_store env_PROD) es s = Inr (kept, s)" and
    kept: "list_all2 (\<lambda>e p. decode_entry s e = Some p) kept (filter (visible env_PROD) ps)"
    by blast
  let ?s' = "s @ [EntryArray kept]"
  have res: "getAllPosts_store env_PROD a s = Inr (length s, ?s')"
    unfolding getAllPosts_store_def getCollection_store_def
    by (simp add: andThen_def read_def alloc_def es run)
  have un: "unchanged s ?s'"
    by (rule unchanged_alloc [OF unchanged_refl])
  have "entries_of ?s' (length s) = Some kept"
    by (simp add: entries_of_def lookup_def)
  moreover have "list_all2 (\<lambda>e p. decode_entry ?s' e = Some p) kept (filter (visible env_PROD) ps)"
    by (rule unchanged_decoded [OF un kept])
  ultimately have "decode_posts ?s' (length s) = Some (getAllPosts env_PROD ps)"
    unfolding decode_posts_Some getAllPosts_visible by blast
  with res un show ?thesis by blast
qed

subsection \<open>The tag aggregator on a store\<close>

lemma getAllTags_callback_store_run:
  assumes "decode_entry s e = Some p"
  shows "getAllTags_callback_store e s = Inr (length s, s @ [StrArray (tags (data p))])"
proof -
  from assms obtain d da ta where
    e: "entry_of s e = Some (entry_id p, d)" and
    d: "data_of s d = Some (Some (draft (data p)), Some da, Some ta)" and
    t: "strings_of s ta = Some (tags (data p))"
    unfolding decode_entry_Some by blast
  show ?thesis
    unfolding getAllTags_callback_store_def
    by (simp add: andThen_def read_def alloc_def e d t)
qed

lemma lookup_append:
  "lookup (s @ [ob]) a =
     (if a < length s then lookup s a else if a = length s then Some ob else None)"
  by (simp add: lookup_def nth_append)

lemma lookup_update:
  "lookup (s[a := ob]) b = (if b = a \<and> a < length s then Some ob else lookup s b)"
  by (simp add: lookup_def)

lemma lookup_Some_less: "lookup s a = Some ob \<Longrightarrow> a < length s"
  by (simp add: lookup_def split: if_splits)

lemma strings_of_less: "strings_of s a = Some ts \<Longrightarrow> a < length s"
  unfolding strings_of_def by (cases "lookup s a") (auto dest: lookup_Some_less)

lemma set_of_less: "set_of s a = Some ts \<Longrightarrow> a < length s"
  unfolding set_of_def by (cases "lookup s a") (auto dest: lookup_Some_less)

lemma counts_of_less: "counts_of s a = Some m \<Longrightarrow> a < length s"
  unfolding counts_of_def by (cases "lookup s a") (auto dest: lookup_Some_less)

lemma flatMap_store_loop:
  assumes "list_all2 (\<lambda>e p. decode_entry s0 e = Some p) es ps"
    and "unchanged s0 s" and "length s0 \<le> res" and "strings_of s res = Some cur"
  shows "\<exists>s'. foldM (flatMap_store_step getAllTags_callback_store) res es s = Inr (res, s')
      \<and> unchanged s0 s'
      \<and> strings_of s' res = Some (cur @ flatMap (\<lambda>p. tags (data p)) ps)"
  using assms
proof (induction arbitrary: s cur rule: list_all2_induct)
  case Nil
  then show ?case by (simp add: ret_def)
next
  case (Cons e es p ps)
  let ?ts = "tags (data p)"
  let ?s1 = "s @ [StrArray ?ts]"
  let ?s2 = "?s1[res := StrArray (cur @ ?ts)]"
  from Cons.prems have res: "res < length s" by (simp add: strings_of_less)
  have dec: "decode_entry s e = Some p"
    by (rule unchanged_decode_entry [OF Cons.prems(1) Cons.hyps(1)])
  have cb: "getAllTags_callback_store e s = Inr (length s, ?s1)"
    by (rule getAllTags_callback_store_run [OF dec])
  have r1: "strings_of ?s1 (length s) = Some ?ts"
    by (simp add: strings_of_def lookup_append)
  have r2: "strings_of ?s1 res = Some cur"
    using Cons.prems(3) res by (simp add: strings_of_def lookup_append)
  have w: "assign res (StrArray (cur @ ?ts)) ?s1 = Inr ((), ?s2)"
    using res by (simp add: assign_def)
  have un: "unchanged s0 ?s2"
    by (rule unchanged_assign [OF unchanged_alloc [OF Cons.prems(1)] Cons.prems(2)])
  have cell: "strings_of ?s2 res = Some (cur @ ?ts)"
    using res by (simp add: strings_of_def lookup_update)
  from Cons.IH [OF un Cons.prems(2) cell] obtain s' where
    run: "foldM (flatMap_store_step getAllTags_callback_store) res es ?s2 = Inr (res, s')" and
    un': "unchanged s0 s'" and
    fin: "strings_of s' res = Some ((cur @ ?ts) @ flatMap (\<lambda>p. tags (data p)) ps)"
    by blast
  have "foldM (flatMap_store_step getAllTags_callback_store) res (e # es) s = Inr (res, s')"
    by (simp add: flatMap_store_step_def andThen_def read_def ret_def cb r1 r2 w run)
  with un' fin show ?case by simp
qed

lemma getAllTags_store_run:
  assumes "decode_posts s a = Some ps"
  shows "\<exists>r s'. getAllTags_store a s = Inr (r, s') \<and> unchanged s s'
           \<and> strings_of s' r = Some (getAllTags ps)"
proof -
  from assms obtain es where
    es: "entries_of s a = Some es" and
    dec: "list_all2 (\<lambda>e p. decode_entry s e = Some p) es ps"
    unfolding decode_posts_Some by blast
  let ?s1 = "s @ [StrArray []]"
  have un: "unchanged s ?s1" by (rule unchanged_alloc [OF unchanged_refl])
  have cell: "strings_of ?s1 (length s) = Some []"
    by (simp add: strings_of_def lookup_append)
  from flatMap_store_loop [OF dec un order_refl cell] obtain s' where
    run: "foldM (flatMap_store_step getAllTags_callback_store) (length s) es ?s1 = Inr (length s, s')" and
    un': "unchanged s s'" and
    fin: "strings_of s' (length s) = Some ([] @ flatMap (\<lambda>p. tags (data p)) ps)"
    by blast
  have "getAllTags_store a s = Inr (length s, s')"
    unfolding getAllTags_store_def flatMap_store_def
    by (simp add: andThen_def read_def alloc_def es run)
  with un' fin show ?thesis by (simp add: getAllTags_def)
qed

lemma new_Set_store_loop:
  assumes "unchanged s0 s" and "length s0 \<le> st" and "set_of s st = Some cur"
  shows "\<exists>s'. foldM Set_add_store st ts s = Inr (st, s')
      \<and> unchanged s0 s'
      \<and> set_of s' st = Some (reduce Set_add cur ts)"
  using assms
proof (induction ts arbitrary: s cur)
  case Nil
  then show ?case by (simp add: ret_def)
next
  case (Cons t ts)
  let ?s1 = "s[st := TagSet (Set_add cur t)]"
  from Cons.prems have st: "st < length s" by (simp add: set_of_less)
  have w: "assign st (TagSet (Set_add cur t)) s = Inr ((), ?s1)"
    using st by (simp add: assign_def)
  have un: "unchanged s0 ?s1"
    by (rule unchanged_assign [OF Cons.prems(1) Cons.prems(2)])
  have cell: "set_of ?s1 st = Some (Set_add cur t)"
    using st by (simp add: set_of_def lookup_update)
  from Cons.IH [OF un Cons.prems(2) cell] obtain s' where
    run: "foldM Set_add_store st ts ?s1 = Inr (st, s')" and
    un': "unchanged s0 s'" and
    fin: "set_of s' st = Some (reduce Set_add (Set_add cur t) ts)"
    by blast
  have "foldM Set_add_store st (t # ts) s = Inr (st, s')"
    by (simp add: Set_add_store_def andThen_def read_def ret_def Cons.prems(3) w run)
  with un' fin show ?case by simp
qed

lemma getUniqueTags_store_run:
  assumes "decode_posts s a = Some ps"
  shows "\<exists>r s'. getUniqueTags_store a s = Inr (r, s') \<and> unchanged s s'
           \<and> strings_of s' r = Some (getUniqueTags ps)"
proof -
  from getAllTags_store_run [OF assms] obtain all s1 where
    run1: "getAllTags_store a s = Inr (all, s1)" and
    un1: "unchanged s s1" and
    all: "strings_of s1 all = Some (getAllTags ps)"
    by blast
  let ?s2 = "s1 @ [TagSet []]"
  let ?st = "length s1"
  have un2: "unchanged s ?s2" by (rule unchanged_alloc [OF un1])
  have cell: "set_of ?s2 ?st = Some []"
    by (simp add: set_of_def lookup_append)
  have le: "length s \<le> ?st" by (rule unchanged_length [OF un1])
  from new_Set_store_loop [OF un2 le cell, of "getAllTags ps"] obtain s3 where
    run3: "foldM Set_add_store ?st (getAllTags ps) ?s2 = Inr (?st, s3)" and
    un3: "unchanged s s3" and
    elems: "set_of s3 ?st = Some (reduce Set_add [] (getAllTags ps))"
    by blast
  have ns: "new_Set_store all s1 = Inr (?st, s3)"
    unfolding new_Set_store_def
    by (simp add: andThen_def read_def alloc_def all run3)
  let ?s4 = "s3 @ [StrArray (getUniqueTags ps)]"
  have "getUniqueTags_store a s = Inr (length s3, ?s4)"
    unfolding getUniqueTags_store_def
    by (simp add: andThen_def read_def alloc_def run1 ns elems getUniqueTags_def new_Set_def)
  moreover have "unchanged s ?s4" by (rule unchanged_alloc [OF un3])
  moreover have "strings_of ?s4 (length s3) = Some (getUniqueTags ps)"
    by (simp add: strings_of_def lookup_append)
  ultimately show ?thesis by blast
qed

lemma count_store_loop:
  assumes "unchanged s0 s" and "length s0 \<le> acc" and "counts_of s acc = Some cur"
  shows "\<exists>s'. foldM getUniqueTagsWithCount_callback_store acc ts s = Inr (acc, s')
      \<and> unchanged s0 s'
      \<and> counts_of s' acc = Some (reduce getUniqueTagsWithCount_callback cur ts)"
  using assms
proof (induction ts arbitrary: s cur)
  case Nil
  then show ?case by (simp add: ret_def)
next
  case (Cons t ts)
  let ?m = "getUniqueTagsWithCount_callback cur t"
  let ?s1 = "s[acc := CountMap ?m]"
  from Cons.prems have acc: "acc < length s" by (simp add: counts_of_less)
  have step: "getUniqueTagsWithCount_callback_store acc t s = Inr (acc, ?s1)"
    unfolding getUniqueTagsWithCount_callback_store_def
    using acc
    by (simp add: andThen_def read_def ret_def assign_def Cons.prems(3)
          getUniqueTagsWithCount_callback_def)
  have un: "unchanged s0 ?s1"
    by (rule unchanged_assign [OF Cons.prems(1) Cons.prems(2)])
  have cell: "counts_of ?s1 acc = Some ?m"
    using acc by (simp add: counts_of_def lookup_update)
  from Cons.IH [OF un Cons.prems(2) cell] obtain s' where
    run: "foldM getUniqueTagsWithCount_callback_store acc ts ?s1 = Inr (acc, s')" and
    un': "unchanged s0 s'" and
    fin: "counts_of s' acc = Some (reduce getUniqueTagsWithCount_callback ?m ts)"
    by blast
  have "foldM getUniqueTagsWithCount_callback_store acc (t # ts) s = Inr (acc, s')"
    by (simp add: andThen_def step run)
  with un' fin show ?case by simp
qed

lemma getUniqueTagsWithCount_store_run:
  assumes "decode_posts s a = Some ps"
  shows "\<exists>r s'. getUniqueTagsWithCount_store a s = Inr (r, s') \<and> unchanged s s'
           \<and> pairs_of s' r = Some (getUniqueTagsWithCount ps)"
proof -
  from getAllTags_store_run [OF assms] obtain all s1 where
    run1: "getAllTags_store a s = Inr (all, s1)" and
    un1: "unchanged s s1" and
    all: "strings_of s1 all = Some (getAllTags ps)"
    by blast
  let ?s2 = "s1 @ [CountMap []]"
  let ?m = "length s1"
  have un2: "unchanged s ?s2" by (rule unchanged_alloc [OF un1])
  have cell: "counts_of ?s2 ?m = Some []"
    by (simp add: counts_of_def lookup_append)
  have le: "length s \<le> ?m" by (rule unchanged_length [OF un1])
  let ?entries = "reduce getUniqueTagsWithCount_callback [] (getAllTags ps)"
  from count_store_loop [OF un2 le cell, of "getAllTags ps"] obtain s3 where
    run3: "foldM getUniqueTagsWithCount_callback_store ?m (getAllTags ps) ?s2 = Inr (?m, s3)" and
    un3: "unchanged s s3" and
    entries: "counts_of s3 ?m = Some ?entries"
    by blast
  let ?s4 = "s3 @ [PairArray ?entries]"
  let ?s5 = "?s4[length s3 := PairArray (getUniqueTagsWithCount ps)]"
  have sorted: "sort_store (\<lambda>a b. snd b - snd a) (length s3) ?s4 = Inr (length s3, ?s5)"
    unfolding sort_store_def
    by (simp add: andThen_def read_def ret_def assign_def pairs_of_def lookup_append
          getUniqueTagsWithCount_def)
  have "getUniqueTagsWithCount_store a s = Inr (length s3, ?s5)"
    unfolding getUniqueTagsWithCount_store_def
    by (simp add: andThen_def read_def alloc_def run1 all run3 entries sorted)
  moreover have "unchanged s ?s5"
    by (rule unchanged_assign [OF unchanged_alloc [OF un3] unchanged_length [OF un3]])
  moreover have "pairs_of ?s5 (length s3) = Some (getUniqueTagsWithCount ps)"
    by (simp add: pairs_of_def lookup_append)
  ultimately show ?thesis by blast
qed

subsection \<open>The year grouper on a store\<close>

lemma entries_of_less: "entries_of s a = Some es \<Longrightarrow> a < length s"
  unfolding entries_of_def by (cases "lookup s a") (auto dest: lookup_Some_less)

lemma index_of_less: "index_of s a = Some ix \<Longrightarrow> a < length s"
  unfolding index_of_def by (cases "lookup s a") (auto dest: lookup_Some_less)

lemma entries_of_update_other:
  "a \<noteq> b \<Longrightarrow> entries_of (s[a := ob]) b = entries_of s b"
  by (simp add: entries_of_def lookup_update)

lemma entries_of_append_old:
  "b < length s \<Longrightarrow> entries_of (s @ [ob]) b = entries_of s b"
  by (simp add: entries_of_def lookup_append)

lemma index_of_update_other:
  "a \<noteq> b \<Longrightarrow> index_of (s[a := ob]) b = index_of s b"
  by (simp add: index_of_def lookup_update)

lemma groupPostsByYear_callback_store_new:
  assumes inv: "index_inv s0 acc s ix P"
    and dec: "decode_entry s0 e = Some p"
    and new: "Map_get ix (year_of p) = None"
  shows "\<exists>s' ix'. groupPostsByYear_callback_store acc e s = Inr (acc, s')
           \<and> index_inv s0 acc s' ix' (P(year_of p := P (year_of p) @ [p]))"
proof -
  let ?y = "year_of p"
  let ?b = "length s"
  let ?ix = "Map_set ix ?y ?b"
  let ?s1 = "s @ [EntryArray []]"
  let ?s2 = "?s1[acc := YearIndex ?ix]"
  let ?s3 = "?s2[?b := EntryArray [e]]"
  from inv have un: "unchanged s0 s" and acc0: "length s0 \<le> acc"
    and ix: "index_of s acc = Some ix"
    and none: "\<And>y. Map_get ix y = None \<Longrightarrow> P y = []"
    and some: "\<And>y b. Map_get ix y = Some b \<Longrightarrow>
           length s0 \<le> b \<and> b \<noteq> acc \<and> P y \<noteq> []
           \<and> (\<exists>bs. entries_of s b = Some bs
                 \<and> list_all2 (\<lambda>e p. decode_entry s0 e = Some p) bs (P y))"
    and inj: "\<And>y y' b. Map_get ix y = Some b \<Longrightarrow> Map_get ix y' = Some b \<Longrightarrow> y = y'"
    unfolding index_inv_def by blast+
  from ix have acc: "acc < length s" by (rule index_of_less)
  from unchanged_decode_entry [OF un dec] obtain d da ta where
    e: "entry_of s e = Some (entry_id p, d)" and
    d: "data_of s d = Some (Some (draft (data p)), Some da, Some ta)" and
    dt: "date_of s da = Some (publishDate (data p))"
    unfolding decode_entry_Some by blast
  have old: "b < length s" if "Map_get ix y = Some b" for y b
    using some [OF that] by (auto dest: entries_of_less)
  have ix2: "index_of ?s2 acc = Some ?ix"
    using acc by (simp add: index_of_def lookup_update)
  have b2: "entries_of ?s2 ?b = Some []"
    using acc by (simp add: entries_of_def lookup_update lookup_append)
  have run: "groupPostsByYear_callback_store acc e s = Inr (acc, ?s3)"
    unfolding groupPostsByYear_callback_store_def
    using acc new
    by (simp add: andThen_def read_def ret_def alloc_def assign_def Let_def
          e d dt ix ix2 b2 Map_get_Map_set year_of_def [symmetric])
  have un3: "unchanged s0 ?s3"
    by (intro unchanged_assign unchanged_alloc un acc0 unchanged_length [OF un])
  have ix3: "index_of ?s3 acc = Some ?ix"
    using acc ix2 by (simp add: index_of_update_other)
  have "index_inv s0 acc ?s3 ?ix (P(?y := P ?y @ [p]))"
    unfolding index_inv_def
  proof (intro conjI allI impI)
    show "unchanged s0 ?s3" by (rule un3)
    show "length s0 \<le> acc" by (rule acc0)
    show "index_of ?s3 acc = Some ?ix" by (rule ix3)
  next
    fix y assume "Map_get ?ix y = None"
    then have "y \<noteq> ?y" and "Map_get ix y = None"
      by (auto simp: Map_get_Map_set split: if_splits)
    then show "(P(?y := P ?y @ [p])) y = []" by (simp add: none)
  next
    fix y b assume g: "Map_get ?ix y = Some b"
    show "length s0 \<le> b"
      using g some unchanged_length [OF un]
      by (auto simp: Map_get_Map_set split: if_splits)
    show "b \<noteq> acc"
      using g some acc by (auto simp: Map_get_Map_set split: if_splits)
    show "(P(?y := P ?y @ [p])) y \<noteq> []"
      using g some by (auto simp: Map_get_Map_set split: if_splits)
    show "\<exists>bs. entries_of ?s3 b = Some bs
        \<and> list_all2 (\<lambda>e p. decode_entry s0 e = Some p) bs ((P(?y := P ?y @ [p])) y)"
    proof (cases "y = ?y")
      case True
      with g have "b = ?b" by (simp add: Map_get_Map_set)
      moreover have "entries_of ?s3 ?b = Some [e]"
        by (simp add: entries_of_def lookup_update)
      moreover have "P ?y = []" by (rule none [OF new])
      ultimately show ?thesis using True dec by simp
    next
      case False
      with g have g': "Map_get ix y = Some b" by (simp add: Map_get_Map_set)
      from some [OF g'] obtain bs where
        bs: "entries_of s b = Some bs" and
        l: "list_all2 (\<lambda>e p. decode_entry s0 e = Some p) bs (P y)" and
        ne: "b \<noteq> acc"
        by blast
      from old [OF g'] have lt: "b < length s" .
      then have "entries_of ?s3 b = entries_of s b"
        using ne by (simp add: entries_of_update_other entries_of_append_old)
      with bs l False show ?thesis by simp
    qed
  next
    fix y y' b assume g: "Map_get ?ix y = Some b" and g': "Map_get ?ix y' = Some b"
    show "y = y'"
    proof (cases "b = ?b")
      case True
      have "y = ?y"
      proof (rule ccontr)
        assume "y \<noteq> ?y"
        with g have "Map_get ix y = Some b" by (simp add: Map_get_Map_set)
        from old [OF this] True show False by simp
      qed
      moreover have "y' = ?y"
      proof (rule ccontr)
        assume "y' \<noteq> ?y"
        with g' have "Map_get ix y' = Some b" by (simp add: Map_get_Map_set)
        from old [OF this] True show False by simp
      qed
      ultimately show ?thesis by simp
    next
      case False
      with g g' have "Map_get ix y = Some b" "Map_get ix y' = Some b"
        by (auto simp: Map_get_Map_set split: if_splits)
      then show ?thesis by (rule inj)
    qed
  qed
  with run show ?thesis by blast
qed

lemma groupPostsByYear_callback_store_old:
  assumes inv: "index_inv s0 acc s ix P"
    and dec: "decode_entry s0 e = Some p"
    and old: "Map_get ix (year_of p) = Some b"
  shows "\<exists>s' ix'. groupPostsByYear_callback_store acc e s = Inr (acc, s')
           \<and> index_inv s0 acc s' ix' (P(year_of p := P (year_of p) @ [p]))"
proof -
  let ?y = "year_of p"
  from inv have un: "unchanged s0 s" and acc0: "length s0 \<le> acc"
    and ix: "index_of s acc = Some ix"
    and none: "\<And>y. Map_get ix y = None \<Longrightarrow> P y = []"
    and some: "\<And>y b. Map_get ix y = Some b \<Longrightarrow>
           length s0 \<le> b \<and> b \<noteq> acc \<and> P y \<noteq> []
           \<and> (\<exists>bs. entries_of s b = Some bs
                 \<and> list_all2 (\<lambda>e p. decode_entry s0 e = Some p) bs (P y))"
    and inj: "\<And>y y' b. Map_get ix y = Some b \<Longrightarrow> Map_get ix y' = Some b \<Longrightarrow> y = y'"
    unfolding index_inv_def by blast+
  from some [OF old] obtain bs where
    b0: "length s0 \<le> b" and bacc: "b \<noteq> acc" and
    bs: "entries_of s b = Some bs" and
    l: "list_all2 (\<lambda>e p. decode_entry s0 e = Some p) bs (P ?y)"
    by blast
  from bs have b: "b < length s" by (rule entries_of_less)
  let ?s1 = "s[b := EntryArray (bs @ [e])]"
  from unchanged_decode_entry [OF un dec] obtain d da ta where
    e: "entry_of s e = Some (entry_id p, d)" and
    d: "data_of s d = Some (Some (draft (data p)), Some da, Some ta)" and
    dt: "date_of s da = Some (publishDate (data p))"
    unfolding decode_entry_Some by blast
  have run: "groupPostsByYear_callback_store acc e s = Inr (acc, ?s1)"
    unfolding groupPostsByYear_callback_store_def
    using b old
    by (simp add: andThen_def read_def ret_def assign_def Let_def
          e d dt ix bs year_of_def [symmetric])
  have "index_inv s0 acc ?s1 ix (P(?y := P ?y @ [p]))"
    unfolding index_inv_def
  proof (intro conjI allI impI)
    show "unchanged s0 ?s1" by (rule unchanged_assign [OF un b0])
    show "length s0 \<le> acc" by (rule acc0)
    show "index_of ?s1 acc = Some ix" using bacc ix by (simp add: index_of_update_other)
  next
    fix y assume n: "Map_get ix y = None"
    with old have "y \<noteq> ?y" by auto
    with n show "(P(?y := P ?y @ [p])) y = []" by (simp add: none)
  next
    fix y c assume g: "Map_get ix y = Some c"
    show "length s0 \<le> c" using some [OF g] by simp
    show "c \<noteq> acc" using some [OF g] by simp
    show "(P(?y := P ?y @ [p])) y \<noteq> []" using some [OF g] by simp
    show "\<exists>cs. entries_of ?s1 c = Some cs
        \<and> list_all2 (\<lambda>e p. decode_entry s0 e = Some p) cs ((P(?y := P ?y @ [p])) y)"
    proof (cases "y = ?y")
      case True
      with g old have "c = b" by simp
      moreover have "entries_of ?s1 b = Some (bs @ [e])"
        using b by (simp add: entries_of_def lookup_update)
      moreover have "list_all2 (\<lambda>e p. decode_entry s0 e = Some p) (bs @ [e]) (P ?y @ [p])"
        using l dec by (simp add: list_all2_appendI)
      ultimately show ?thesis using True by simp
    next
      case False
      have "c \<noteq> b"
      proof
        assume "c = b"
        with g old have "y = ?y" by (auto intro: inj)
        with False show False by simp
      qed
      then have "entries_of ?s1 c = entries_of s c"
        by (simp add: entries_of_update_other)
      with some [OF g] False show ?thesis by simp
    qed
  next
    fix y y' c assume "Map_get ix y = Some c" "Map_get ix y' = Some c"
    then show "y = y'" by (rule inj)
  qed
  with run show ?thesis by blast
qed

lemma groupPostsByYear_callback_store_run:
  assumes "index_inv s0 acc s ix P" and "decode_entry s0 e = Some p"
  shows "\<exists>s' ix'. groupPostsByYear_callback_store acc e s = Inr (acc, s')
           \<and> index_inv s0 acc s' ix' (P(year_of p := P (year_of p) @ [p]))"
proof (cases "Map_get ix (year_of p)")
  case None
  with assms show ?thesis by (rule groupPostsByYear_callback_store_new)
next
  case (Some b)
  with assms show ?thesis by (rule groupPostsByYear_callback_store_old)
qed

lemma groupPostsByYear_store_loop:
  assumes "list_all2 (\<lambda>e p. decode_entry s0 e = Some p) es ps"
    and "index_inv s0 acc s ix P"
  shows "\<exists>s' ix'. foldM groupPostsByYear_callback_store acc es s = Inr (acc, s')
           \<and> index_inv s0 acc s' ix' (\<lambda>y. P y @ filter (\<lambda>p. year_of p = y) ps)"
  using assms
proof (induction arbitrary: s ix P rule: list_all2_induct)
  case Nil
  then show ?case by (auto simp: ret_def)
next
  case (Cons e es p ps)
  let ?P = "P(year_of p := P (year_of p) @ [p])"
  from groupPostsByYear_callback_store_run [OF Cons.prems Cons.hyps(1)] obtain s1 ix1 where
    step: "groupPostsByYear_callback_store acc e s = Inr (acc, s1)" and
    inv1: "index_inv s0 acc s1 ix1 ?P"
    by blast
  from Cons.IH [OF inv1] obtain s' ix' where
    run: "foldM groupPostsByYear_callback_store acc es s1 = Inr (acc, s')" and
    inv': "index_inv s0 acc s' ix' (\<lambda>y. ?P y @ filter (\<lambda>p. year_of p = y) ps)"
    by blast
  have "(\<lambda>y. ?P y @ filter (\<lambda>p. year_of p = y) ps)
      = (\<lambda>y. P y @ filter (\<lambda>q. year_of q = y) (p # ps))"
    by (rule ext) simp
  with inv' have "index_inv s0 acc s' ix' (\<lambda>y. P y @ filter (\<lambda>q. year_of q = y) (p # ps))"
    by simp
  moreover have "foldM groupPostsByYear_callback_store acc (e # es) s = Inr (acc, s')"
    by (simp add: andThen_def step run)
  ultimately show ?case by blast
qed

lemma groupPostsByYear_store_run:
  assumes "decode_posts s a = Some ps"
  shows "\<exists>r s'. groupPostsByYear_store a s = Inr (r, s') \<and> unchanged s s'
           \<and> (\<forall>y. decode_index s' r y = groupPostsByYear ps y)"
proof -
  from assms obtain es where
    es: "entries_of s a = Some es" and
    dec: "list_all2 (\<lambda>e p. decode_entry s e = Some p) es ps"
    unfolding decode_posts_Some by blast
  let ?acc = "length s"
  let ?s1 = "s @ [YearIndex []]"
  have "index_inv s ?acc ?s1 [] (\<lambda>y. [])"
    unfolding index_inv_def
    by (simp add: unchanged_alloc [OF unchanged_refl] index_of_def lookup_append)
  from groupPostsByYear_store_loop [OF dec this] obtain s' ix where
    run: "foldM groupPostsByYear_callback_store ?acc es ?s1 = Inr (?acc, s')" and
    inv: "index_inv s ?acc s' ix (\<lambda>y. [] @ filter (\<lambda>p. year_of p = y) ps)"
    by blast
  from inv have un: "unchanged s s'"
    and ix: "index_of s' ?acc = Some ix"
    and none: "\<And>y. Map_get ix y = None \<Longrightarrow> filter (\<lambda>p. year_of p = y) ps = []"
    and some: "\<And>y b. Map_get ix y = Some b \<Longrightarrow>
           filter (\<lambda>p. year_of p = y) ps \<noteq> []
           \<and> (\<exists>bs. entries_of s' b = Some bs
                 \<and> list_all2 (\<lambda>e p. decode_entry s e = Some p) bs
                      (filter (\<lambda>p. year_of p = y) ps))"
    unfolding index_inv_def by auto
  have res: "groupPostsByYear_store a s = Inr (?acc, s')"
    unfolding groupPostsByYear_store_def
    by (simp add: andThen_def read_def alloc_def es run)
  have "decode_index s' ?acc y = groupPostsByYear ps y" for y
  proof (cases "Map_get ix y")
    case None
    then show ?thesis
      by (simp add: decode_index_def ix none groupPostsByYear_bucket)
  next
    case (Some b)
    from some [OF Some] obtain bs where
      ne: "filter (\<lambda>p. year_of p = y) ps \<noteq> []" and
      bs: "entries_of s' b = Some bs" and
      l: "list_all2 (\<lambda>e p. decode_entry s e = Some p) bs (filter (\<lambda>p. year_of p = y) ps)"
      by blast
    from unchanged_decoded [OF un l] bs
    have "decode_posts s' b = Some (filter (\<lambda>p. year_of p = y) ps)"
      unfolding decode_posts_Some by blast
    with Some ne show ?thesis
      by (simp add: decode_index_def ix groupPostsByYear_bucket)
  qed
  with res un show ?thesis by blast
qed

subsection \<open>Every operation returns and leaves the store as it was\<close>

text \<open>
  The hypothesis of well-formed input is needed: without the \<^verbatim>\<open>tags\<close> of an entry
  \<^verbatim>\<open>getAllTags\<close> throws, without its \<^verbatim>\<open>publishDate\<close> \<^verbatim>\<open>groupPostsByYear\<close> throws.
\<close>

lemma missing_property_throws:
  "getAllTags_store 8 (example_store[2 := Data (Some False) (Some 1) None]) = Inl TypeError
   \<and> groupPostsByYear_store 8 (example_store[2 := Data (Some False) None (Some 0)])
       = Inl TypeError"
  by (simp add: example_store_def getAllTags_store_def flatMap_store_def
        flatMap_store_step_def getAllTags_callback_store_def groupPostsByYear_store_def
        groupPostsByYear_callback_store_def andThen_def read_def alloc_def throw_def
        entries_of_def entry_of_def data_of_def lookup_def)

text \<open>
  Claim C9. On well-formed input, an array of entries in the store each of which has its
  \<^verbatim>\<open>data\<close> with \<^verbatim>\<open>draft\<close>, \<^verbatim>\<open>publishDate\<close> and \<^verbatim>\<open>tags\<close>, every operation returns a result
  and throws nothing, every object that was in the store before the call is the same after
  it, and the result is the one the function on values gives.
\<close>

theorem operations_total:
  assumes "decode_posts s a = Some posts"
  shows "(\<exists>r s'. getAllPosts_store env_PROD a s = Inr (r, s') \<and> take (length s) s' = s
            \<and> decode_posts s' r = Some (getAllPosts env_PROD posts))
    \<and> (\<exists>r s'. groupPostsByYear_store a s = Inr (r, s') \<and> take (length s) s' = s
            \<and> (\<forall>y. decode_index s' r y = groupPostsByYear posts y))
    \<and> (\<exists>r s'. getAllTags_store a s = Inr (r, s') \<and> take (length s) s' = s
            \<and> strings_of s' r = Some (getAllTags posts))
    \<and> (\<exists>r s'. getUniqueTags_store a s = Inr (r, s') \<and> take (length s) s' = s
            \<and> strings_of s' r = Some (getUniqueTags posts))
    \<and> (\<exists>r s'. getUniqueTagsWithCount_store a s = Inr (r, s') \<and> take (length s) s' = s
            \<and> pairs_of s' r = Some (getUniqueTagsWithCount posts))"
  using getAllPosts_store_run [OF assms, of env_PROD] groupPostsByYear_store_run [OF assms]
    getAllTags_store_run [OF assms] getUniqueTags_store_run [OF assms]
    getUniqueTagsWithCount_store_run [OF assms]
  unfolding unchanged_def by (intro conjI)

theorem operations_total_witness:
  "decode_posts example_store 8 = Some example_posts
    \<and> (\<exists>r s'. getAllPosts_store True 8 example_store = Inr (r, s')
            \<and> take (length example_store) s' = example_store
            \<and> decode_posts s' r = Some (getAllPosts True example_posts))
    \<and> (\<exists>r s'. groupPostsByYear_store 8 example_store = Inr (r, s')
            \<and> take (length example_store) s' = example_store
            \<and> (\<forall>y. decode_index s' r y = groupPostsByYear example_posts y))
    \<and> (\<exists>r s'. getAllTags_store 8 example_store = Inr (r, s')
            \<and> take (length example_store) s' = example_store
            \<and> strings_of s' r = Some (getAllTags example_posts))
    \<and> (\<exists>r s'. getUniqueTags_store 8 example_store = Inr (r, s')
            \<and> take (length example_store) s' = example_store
            \<and> strings_of s' r = Some (getUniqueTags example_posts))
    \<and> (\<exists>r s'. getUniqueTagsWithCount_store 8 example_store = Inr (r, s')
            \<and> take (length example_store) s' = example_store
            \<and> pairs_of s' r = Some (getUniqueTagsWithCount example_posts))"
proof -
  have wf: "decode_posts example_store 8 = Some example_posts"
    by (simp add: decode_posts_def decode_entry_def entries_of_def entry_of_def data_of_def
          date_of_def strings_of_def lookup_def example_store_def example_posts_def)
  from wf operations_total [OF wf, of True] show ?thesis by (rule conjI)
qed

text \<open>The year grouper run on the example: the accumulator and one new array for each year.\<close>

lemma groupPostsByYear_store_example:
  "groupPostsByYear_store 8 example_store =
     Inr (9, example_store
           @ [YearIndex [(Year 2024, 10), (Year 2023, 11)], EntryArray [3, 3], EntryArray [7]])"
  by (simp add: example_store_def groupPostsByYear_store_def
        groupPostsByYear_callback_store_def andThen_def read_def alloc_def assign_def ret_def
        entries_of_def entry_of_def data_of_def date_of_def index_of_def lookup_def Let_def)

end
